theory Spec2Isabelle
  imports Main "HOL-Library.Word" "HOL-Library.Sublist"
begin

section \<open>The thread pool of thread\_pool.cpp as an interleaving system\<close>

text \<open>
  The class \<^verbatim>\<open>ThreadPool\<close> owns a vector of worker threads, a deque of type-erased
  tasks, a mutex, a condition variable and two atomics. Every access to the deque is made
  with \<^verbatim>\<open>tasksMutex\<close> held (lines 59-60, 71-80, 104-106 and 118-119), so each locked
  block is one atomic step of the model, and an execution of the program is a sequence of
  such steps taken by the calling threads and by the workers in any order.

  The condition variable is abstracted: a worker that waits in \<^verbatim>\<open>cv.wait\<close> may evaluate
  the wait predicate at any moment, which covers notified and spurious wake-ups alike.
  Task bodies are pure, terminating computations that return a value or throw, and all
  tasks of one pool return values of one type \<open>'r\<close>. A future is the index of its packaged
  task in a heap that only grows; the behaviour of \<^verbatim>\<open>std::packaged_task\<close> and
  \<^verbatim>\<open>std::future\<close> is the one the C++ standard prescribes.
\<close>

subsection \<open>Exceptions, shared states and packaged tasks\<close>

datatype future_errc = broken_promise | promise_already_satisfied

datatype exn = future_error future_errc | std_exception string | other_exception

text \<open>The outcome of calling a bound callable: it throws (\<open>Inl\<close>) or returns (\<open>Inr\<close>).\<close>

type_synonym 'r outcome = "exn + 'r"

text \<open>The shared state behind a \<^verbatim>\<open>std::future\<close>: not ready, or ready with a value or
  an exception.\<close>

datatype 'r shared_state = Pending | Ready "'r outcome"

text \<open>A \<^verbatim>\<open>std::packaged_task\<close> on the heap (line 54): the bound callable
  \<^verbatim>\<open>std::bind(f, args...)\<close> and the shared state of its future.\<close>

record 'r packaged_task =
  callable :: "unit \<Rightarrow> 'r outcome"
  shared :: "'r shared_state"

text \<open>\<^verbatim>\<open>e.what()\<close>; the text of a \<^verbatim>\<open>std::future_error\<close> is the one of libstdc++.\<close>

fun what :: "exn \<Rightarrow> string" where
  "what (future_error broken_promise) = ''std::future_error: Broken promise''"
| "what (future_error promise_already_satisfied) = ''std::future_error: Promise already satisfied''"
| "what (std_exception m) = m"
| "what other_exception = []"

text \<open>\<^verbatim>\<open>packaged_task::operator()\<close>: throws \<^verbatim>\<open>promise_already_satisfied\<close> when
  the shared state is ready; otherwise it calls the stored callable and stores what it
  returns or throws in the shared state. Nothing the callable throws leaves the call.\<close>

definition invoke :: "nat \<Rightarrow> 'r packaged_task list \<Rightarrow> exn option \<times> 'r packaged_task list" where
  "invoke h hp =
     (case shared (hp ! h) of
        Ready r \<Rightarrow> (Some (future_error promise_already_satisfied), hp)
      | Pending \<Rightarrow> (None, hp[h := (hp ! h)\<lparr>shared := Ready (callable (hp ! h) ())\<rparr>]))"

text \<open>The destructor of a task closure releases the only \<^verbatim>\<open>shared_ptr\<close> to its packaged
  task (the copy captured on line 60; the local of line 54 is gone when \<^verbatim>\<open>submit\<close>
  returns). \<^verbatim>\<open>~packaged_task\<close> abandons the shared state: a state that is not ready is
  made ready with \<^verbatim>\<open>future_error(broken_promise)\<close>, a ready one is left as it is.\<close>

definition abandon :: "nat \<Rightarrow> 'r packaged_task list \<Rightarrow> 'r packaged_task list" where
  "abandon h hp =
     (if h < length hp then
        (case shared (hp ! h) of
           Pending \<Rightarrow> hp[h := (hp ! h)\<lparr>shared := Ready (Inl (future_error broken_promise))\<rparr>]
         | Ready r \<Rightarrow> hp)
      else hp)"

subsection \<open>The pool\<close>

text \<open>Where a worker thread stands in \<^verbatim>\<open>workerLoop\<close>: before or inside the wait of
  line 72, holding a task before the call of line 83, after the call and before line 89,
  or returned from the loop (line 73).\<close>

datatype worker = Waiting | Executing nat | Completed nat | Exited

text \<open>The members of the class, the heap of packaged tasks the queued closures point to,
  the text written to \<^verbatim>\<open>std::cerr\<close>, and the position of the thread that called
  \<^verbatim>\<open>shutdown\<close> in the join loop of line 109 (\<open>None\<close>: no call of
  \<^verbatim>\<open>shutdown\<close> is running).\<close>

record 'r ThreadPool =
  workers :: "worker list"
  tasks :: "nat list"
  stopping :: bool
  activeWorkers :: "64 word"
  heap :: "'r packaged_task list"
  cerr :: "string list"
  joining :: "nat option"

text \<open>Lines 96-98: the loop that starts \<open>add\<close> threads at the top of
  \<^verbatim>\<open>workerLoop\<close>.\<close>

primrec emplace_workers :: "nat \<Rightarrow> worker list \<Rightarrow> worker list" where
  "emplace_workers 0 ws = ws"
| "emplace_workers (Suc k) ws = emplace_workers k (ws @ [Waiting])"

definition increaseSize :: "nat \<Rightarrow> 'r ThreadPool \<Rightarrow> 'r ThreadPool" where
  "increaseSize newSize s =
     (if newSize \<le> length (workers s) then s
      else s\<lparr>workers := emplace_workers (newSize - length (workers s)) (workers s)\<rparr>)"

text \<open>Lines 41-44, run on the members as their default initialisers leave them.\<close>

definition ThreadPool_ctor :: "nat \<Rightarrow> 'r ThreadPool" where
  "ThreadPool_ctor numThreads =
     increaseSize (if numThreads = 0 then 1 else numThreads)
       \<lparr>workers = [], tasks = [], stopping = False, activeWorkers = 0,
        heap = [], cerr = [], joining = None\<rparr>"

text \<open>Lines 51-64: the packaged task is allocated with a pending shared state, the
  closure that points to it is appended to the deque, and the future (the address of the
  shared state) is returned.\<close>

definition submit :: "('a \<Rightarrow> 'r outcome) \<Rightarrow> 'a \<Rightarrow> 'r ThreadPool \<Rightarrow> nat \<times> 'r ThreadPool" where
  "submit f a s =
     (let taskPack = length (heap s) in
      (taskPack,
       s\<lparr>heap := heap s @ [\<lparr>callable = (\<lambda>_. f a), shared = Pending\<rparr>],
         tasks := tasks s @ [taskPack]\<rparr>))"

text \<open>\<^verbatim>\<open>future::get\<close>: blocks (\<open>None\<close>) while the shared state is not ready, then
  returns the value or rethrows the stored exception.\<close>

definition future_get :: "nat \<Rightarrow> 'r ThreadPool \<Rightarrow> 'r outcome option" where
  "future_get h s = (case shared (heap s ! h) of Pending \<Rightarrow> None | Ready r \<Rightarrow> Some r)"

text \<open>Lines 71-80, one evaluation under the lock: the wait goes on while the predicate of
  line 72 is false; otherwise the worker returns, takes the front task, or continues.\<close>

datatype dequeued = Blocked | StopSignal | Task nat | Continue

definition wait_pred :: "'r ThreadPool \<Rightarrow> bool" where
  "wait_pred s = (stopping s \<or> tasks s \<noteq> [])"

definition dequeue_or_wait :: "'r ThreadPool \<Rightarrow> dequeued \<times> 'r ThreadPool" where
  "dequeue_or_wait s =
     (if \<not> wait_pred s then (Blocked, s)
      else if stopping s \<and> tasks s = [] then (StopSignal, s)
      else (case tasks s of
              front # rest \<Rightarrow> (Task front, s\<lparr>tasks := rest, activeWorkers := activeWorkers s + 1\<rparr>)
            | [] \<Rightarrow> (Continue, s)))"

fun after_dequeue :: "dequeued \<Rightarrow> worker" where
  "after_dequeue Blocked = Waiting"
| "after_dequeue StopSignal = Exited"
| "after_dequeue (Task h) = Executing h"
| "after_dequeue Continue = Waiting"

text \<open>Lines 82-88: the call of the task and the two handlers.\<close>

definition run_task :: "nat \<Rightarrow> 'r ThreadPool \<Rightarrow> 'r ThreadPool" where
  "run_task h s =
     (case invoke h (heap s) of
        (None, hp) \<Rightarrow> s\<lparr>heap := hp\<rparr>
      | (Some other_exception, hp) \<Rightarrow> s\<lparr>heap := hp, cerr := cerr s @ [''Task unknown exception'']\<rparr>
      | (Some e, hp) \<Rightarrow> s\<lparr>heap := hp, cerr := cerr s @ [''Task exception: '' @ what e]\<rparr>)"

text \<open>One step of worker thread \<open>i\<close>. Line 89 and the end of the loop body, where the
  local \<^verbatim>\<open>task\<close> is destroyed, are the step out of \<open>Completed\<close>.\<close>

definition workerLoop :: "nat \<Rightarrow> 'r ThreadPool \<Rightarrow> 'r ThreadPool option" where
  "workerLoop i s =
     (case workers s ! i of
        Waiting \<Rightarrow>
          (case dequeue_or_wait s of
             (d, s') \<Rightarrow> Some (s'\<lparr>workers := (workers s')[i := after_dequeue d]\<rparr>))
      | Executing h \<Rightarrow>
          (if h < length (heap s)
           then Some ((run_task h s)\<lparr>workers := (workers s)[i := Completed h]\<rparr>)
           else None)
      | Completed h \<Rightarrow>
          Some (s\<lparr>activeWorkers := activeWorkers s - 1,
                  heap := abandon h (heap s),
                  workers := (workers s)[i := Waiting]\<rparr>)
      | Exited \<Rightarrow> None)"

text \<open>Lines 103-108 of \<^verbatim>\<open>shutdown\<close>: \<^verbatim>\<open>tasks.clear()\<close> destroys the queued closures
  front to back. The caller then stands before the first join.\<close>

definition shutdown_enter :: "bool \<Rightarrow> 'r ThreadPool \<Rightarrow> 'r ThreadPool" where
  "shutdown_enter waitForTasks s =
     (if \<not> waitForTasks
      then s\<lparr>heap := fold abandon (tasks s) (heap s), tasks := [], stopping := True,
             joining := Some 0\<rparr>
      else s\<lparr>stopping := True, joining := Some 0\<rparr>)"

text \<open>Lines 109-110: \<^verbatim>\<open>join\<close> returns once the thread has returned from
  \<^verbatim>\<open>workerLoop\<close> and blocks (no step) until then; after the last join the vector is
  cleared and \<^verbatim>\<open>shutdown\<close> returns.\<close>

definition shutdown_join :: "'r ThreadPool \<Rightarrow> 'r ThreadPool option" where
  "shutdown_join s =
     (case joining s of
        None \<Rightarrow> None
      | Some k \<Rightarrow>
          (if k < length (workers s)
           then (case workers s ! k of Exited \<Rightarrow> Some (s\<lparr>joining := Some (Suc k)\<rparr>) | _ \<Rightarrow> None)
           else Some (s\<lparr>workers := [], joining := None\<rparr>)))"

text \<open>Lines 113-120.\<close>

definition getActiveWorkerCount :: "'r ThreadPool \<Rightarrow> 64 word" where
  "getActiveWorkerCount s = activeWorkers s"

definition getQueuedTaskCount :: "'r ThreadPool \<Rightarrow> nat" where
  "getQueuedTaskCount s = length (tasks s)"

subsection \<open>Executions\<close>

text \<open>The steps of an execution. \<^verbatim>\<open>submit\<close> may be called from any thread at any time;
  \<^verbatim>\<open>increaseSize\<close> and \<^verbatim>\<open>shutdown\<close> touch the unguarded vector of threads and belong
  to the one thread that owns the pool, so neither starts while that thread is inside
  \<^verbatim>\<open>shutdown\<close>.\<close>

datatype ('a, 'r) event =
    Submit "'a \<Rightarrow> 'r outcome" 'a
  | IncreaseSize nat
  | Shutdown bool
  | Join
  | Work nat

fun step :: "('a, 'r) event \<Rightarrow> 'r ThreadPool \<Rightarrow> 'r ThreadPool option" where
  "step (Submit f a) s = Some (snd (submit f a s))"
| "step (IncreaseSize n) s = (if joining s = None then Some (increaseSize n s) else None)"
| "step (Shutdown b) s = (if joining s = None then Some (shutdown_enter b s) else None)"
| "step Join s = shutdown_join s"
| "step (Work i) s = (if i < length (workers s) then workerLoop i s else None)"

fun run :: "('a, 'r) event list \<Rightarrow> 'r ThreadPool \<Rightarrow> 'r ThreadPool option" where
  "run [] s = Some s"
| "run (e # es) s = (case step e s of None \<Rightarrow> None | Some s' \<Rightarrow> run es s')"

text \<open>What an execution lets one observe: the futures handed out by its calls of
  \<^verbatim>\<open>submit\<close>, in the order of the calls, and the tasks its workers took from the
  queue, each with the worker that took it, in the order of the removals.\<close>

fun submitted_by :: "('a, 'r) event \<Rightarrow> 'r ThreadPool \<Rightarrow> nat list" where
  "submitted_by (Submit f a) s = [fst (submit f a s)]"
| "submitted_by e s = []"

fun received_by :: "('a, 'r) event \<Rightarrow> 'r ThreadPool \<Rightarrow> (nat \<times> nat) list" where
  "received_by (Work i) s =
     (if i < length (workers s) then
        (case workers s ! i of
           Waiting \<Rightarrow> (case fst (dequeue_or_wait s) of Task h \<Rightarrow> [(i, h)] | _ \<Rightarrow> [])
         | _ \<Rightarrow> [])
      else [])"
| "received_by e s = []"

fun submitted :: "('a, 'r) event list \<Rightarrow> 'r ThreadPool \<Rightarrow> nat list" where
  "submitted [] s = []"
| "submitted (e # es) s =
     (case step e s of None \<Rightarrow> [] | Some s' \<Rightarrow> submitted_by e s @ submitted es s')"

fun received :: "('a, 'r) event list \<Rightarrow> 'r ThreadPool \<Rightarrow> (nat \<times> nat) list" where
  "received [] s = []"
| "received (e # es) s =
     (case step e s of None \<Rightarrow> [] | Some s' \<Rightarrow> received_by e s @ received es s')"

subsection \<open>The reading loop of the driver, and the destructor\<close>




text \<open>The steps that can happen while the owner of the pool is inside \<^verbatim>\<open>shutdown\<close>
  and no other thread submits: steps of workers and of the join loop.\<close>

fun internal :: "('a, 'r) event \<Rightarrow> bool" where
  "internal Join = True"
| "internal (Work i) = True"
| "internal e = False"

text \<open>Lines 46-48 and the destruction of the members that follows the body of the
  destructor: the closures still queued are destroyed with the deque. \<open>evs\<close> are the steps
  of the workers and of the join loop while the destructor runs; the destructor has
  returned when the call of \<^verbatim>\<open>shutdown\<close> has.\<close>

definition destroy_members :: "'r ThreadPool \<Rightarrow> 'r ThreadPool" where
  "destroy_members s = s\<lparr>heap := fold abandon (tasks s) (heap s), tasks := []\<rparr>"

definition ThreadPool_dtor :: "('a, 'r) event list \<Rightarrow> 'r ThreadPool \<Rightarrow> 'r ThreadPool option" where
  "ThreadPool_dtor evs s =
     (if list_all internal evs then
        (case run (Shutdown True # evs) s of
           None \<Rightarrow> None
         | Some s' \<Rightarrow> (if joining s' = None then Some (destroy_members s') else None))
      else None)"

section \<open>Invariants of the reachable states\<close>

fun holding :: "worker \<Rightarrow> nat option" where
  "holding (Executing h) = Some h"
| "holding (Completed h) = Some h"
| "holding w = None"

fun worker_ok :: "'r packaged_task list \<Rightarrow> worker \<Rightarrow> bool" where
  "worker_ok hp (Executing h) = (h < length hp \<and> shared (hp ! h) = Pending)"
| "worker_ok hp (Completed h) = (h < length hp \<and> shared (hp ! h) = Ready (callable (hp ! h) ()))"
| "worker_ok hp w = True"

definition held :: "worker list \<Rightarrow> nat \<Rightarrow> bool" where
  "held ws h = (\<exists>i < length ws. holding (ws ! i) = Some h)"

definition queue_ok :: "'r ThreadPool \<Rightarrow> bool" where
  "queue_ok s = (distinct (tasks s) \<and>
     (\<forall>h \<in> set (tasks s). h < length (heap s) \<and> shared (heap s ! h) = Pending))"

definition exclusive :: "'r ThreadPool \<Rightarrow> bool" where
  "exclusive s = (\<forall>i < length (workers s). \<forall>h. holding (workers s ! i) = Some h \<longrightarrow>
     h \<notin> set (tasks s) \<and>
     (\<forall>j < length (workers s). j \<noteq> i \<longrightarrow> holding (workers s ! j) \<noteq> Some h))"

definition workers_ok :: "'r ThreadPool \<Rightarrow> bool" where
  "workers_ok s = (\<forall>i < length (workers s). worker_ok (heap s) (workers s ! i))"

definition none_lost :: "'r ThreadPool \<Rightarrow> bool" where
  "none_lost s = (\<forall>h < length (heap s). shared (heap s ! h) = Pending \<longrightarrow>
     h \<in> set (tasks s) \<or> held (workers s) h)"

definition join_ok :: "'r ThreadPool \<Rightarrow> bool" where
  "join_ok s = (case joining s of None \<Rightarrow> True
     | Some k \<Rightarrow> stopping s \<and> k \<le> length (workers s) \<and> (\<forall>j < k. workers s ! j = Exited))"

definition exits_ok :: "'r ThreadPool \<Rightarrow> bool" where
  "exits_ok s = (\<not> stopping s \<longrightarrow> (\<forall>i < length (workers s). workers s ! i \<noteq> Exited))"

definition wf :: "'r ThreadPool \<Rightarrow> bool" where
  "wf s = (queue_ok s \<and> exclusive s \<and> workers_ok s \<and> none_lost s \<and> cerr s = [] \<and>
     join_ok s \<and> exits_ok s)"

text \<open>How the heap of packaged tasks may differ between an earlier and a later state: no
  entry disappears, the bound callables stay, and a shared state changes at most once, from
  pending to the outcome of its own callable.\<close>

definition follows :: "'r ThreadPool \<Rightarrow> 'r ThreadPool \<Rightarrow> bool" where
  "follows s s' =
     (length (heap s) \<le> length (heap s') \<and>
      (\<forall>h < length (heap s).
         callable (heap s' ! h) = callable (heap s ! h) \<and>
         (shared (heap s' ! h) = shared (heap s ! h) \<or>
          shared (heap s ! h) = Pending \<and>
          shared (heap s' ! h) = Ready (callable (heap s ! h) ()))))"

text \<open>The same when tasks may have been discarded in between: a pending shared state may
  also have become a broken promise.\<close>

definition follows_or_breaks :: "'r ThreadPool \<Rightarrow> 'r ThreadPool \<Rightarrow> bool" where
  "follows_or_breaks s s' =
     (length (heap s) \<le> length (heap s') \<and>
      (\<forall>h < length (heap s).
         callable (heap s' ! h) = callable (heap s ! h) \<and>
         (shared (heap s' ! h) = shared (heap s ! h) \<or>
          shared (heap s ! h) = Pending \<and>
          (shared (heap s' ! h) = Ready (callable (heap s ! h) ()) \<or>
           shared (heap s' ! h) = Ready (Inl (future_error broken_promise))))))"

text \<open>No task has been discarded so far: every shared state is pending or holds the
  outcome of its own callable.\<close>

definition undiscarded :: "'r ThreadPool \<Rightarrow> bool" where
  "undiscarded s =
     (\<forall>h < length (heap s).
        shared (heap s ! h) = Pending \<or> shared (heap s ! h) = Ready (callable (heap s ! h) ()))"

text \<open>What keeps a drain shutdown from returning too early: some worker has not returned
  from its loop, or the queue is already empty.\<close>

definition draining :: "'r ThreadPool \<Rightarrow> bool" where
  "draining s = ((\<exists>i < length (workers s). workers s ! i \<noteq> Exited) \<or> tasks s = [])"

text \<open>A bound on the number of worker and join steps that can still change the state once
  \<^verbatim>\<open>shutdown\<close> has been entered.\<close>

fun work_left :: "worker \<Rightarrow> nat" where
  "work_left Waiting = 1"
| "work_left (Executing h) = 3"
| "work_left (Completed h) = 2"
| "work_left Exited = 0"

definition remaining :: "'r ThreadPool \<Rightarrow> nat" where
  "remaining s =
     3 * length (tasks s) + sum_list (map work_left (workers s)) +
     (case joining s of None \<Rightarrow> 0 | Some k \<Rightarrow> Suc (length (workers s)) - k)"



section \<open>Basic facts and preservation of the invariants\<close>

lemmas wf_defs = queue_ok_def exclusive_def workers_ok_def none_lost_def join_ok_def exits_ok_def

lemma emplace_workers_eq: "emplace_workers k ws = ws @ replicate k Waiting"
  by (induction k arbitrary: ws) (simp_all add: replicate_app_Cons_same)

lemma workers_increaseSize:
  "workers (increaseSize t s) = workers s @ replicate (t - length (workers s)) Waiting"
  by (simp add: increaseSize_def emplace_workers_eq)

lemma workers_ctor: "workers (ThreadPool_ctor n) = replicate (max n 1) Waiting"
  by (simp add: ThreadPool_ctor_def workers_increaseSize max_def)

lemma increaseSize_other [simp]:
  "tasks (increaseSize t s) = tasks s" "heap (increaseSize t s) = heap s"
  "stopping (increaseSize t s) = stopping s" "cerr (increaseSize t s) = cerr s"
  "joining (increaseSize t s) = joining s" "activeWorkers (increaseSize t s) = activeWorkers s"
  by (simp_all add: increaseSize_def)

lemma held_Nil [simp]: "\<not> held [] h"
  by (simp add: held_def)

lemma held_append_Waiting [simp]: "held (ws @ replicate k Waiting) h = held ws h"
proof
  assume "held (ws @ replicate k Waiting) h"
  then obtain i where i: "i < length ws + k" "holding ((ws @ replicate k Waiting) ! i) = Some h"
    by (auto simp: held_def)
  then have "i < length ws" by (cases "i < length ws") (simp_all add: nth_append)
  with i show "held ws h" by (auto simp: held_def nth_append)
next
  assume "held ws h"
  then obtain i where "i < length ws" "holding (ws ! i) = Some h" by (auto simp: held_def)
  then show "held (ws @ replicate k Waiting) h"
    unfolding held_def by (intro exI[of _ i]) (simp add: nth_append)
qed

text \<open>The holder of a task after worker i moved to w.\<close>
lemma held_update:
  assumes "i < length ws"
  shows "held (ws[i := w]) h =
    (holding w = Some h \<or> (\<exists>j < length ws. j \<noteq> i \<and> holding (ws ! j) = Some h))"
proof
  assume "held (ws[i := w]) h"
  then obtain j where j: "j < length ws" "holding (ws[i := w] ! j) = Some h"
    by (auto simp: held_def)
  show "holding w = Some h \<or> (\<exists>j < length ws. j \<noteq> i \<and> holding (ws ! j) = Some h)"
  proof (cases "j = i")
    case True with j assms show ?thesis by simp
  next
    case False with j show ?thesis by auto
  qed
next
  assume "holding w = Some h \<or> (\<exists>j < length ws. j \<noteq> i \<and> holding (ws ! j) = Some h)"
  then show "held (ws[i := w]) h"
  proof
    assume "holding w = Some h"
    with assms show ?thesis unfolding held_def by (intro exI[of _ i]) simp
  next
    assume "\<exists>j < length ws. j \<noteq> i \<and> holding (ws ! j) = Some h"
    then obtain j where "j < length ws" "j \<noteq> i" "holding (ws ! j) = Some h" by blast
    then show ?thesis unfolding held_def by (intro exI[of _ j]) simp
  qed
qed

lemma held_other:
  assumes "held ws h" "i < length ws" "holding (ws ! i) \<noteq> Some h"
  shows "held (ws[i := w]) h"
proof -
  from assms obtain j where j: "j < length ws" "holding (ws ! j) = Some h" by (auto simp: held_def)
  with assms have "j \<noteq> i" by auto
  with j assms(2) show ?thesis by (auto simp: held_update)
qed

lemma wf_ctor: "wf (ThreadPool_ctor n)"
  by (simp add: wf_def wf_defs ThreadPool_ctor_def workers_increaseSize)

lemma wf_increaseSize:
  assumes "wf s" "joining s = None"
  shows "wf (increaseSize t s)"
proof -
  let ?s = "increaseSize t s"
  have "queue_ok ?s" using assms by (simp add: wf_def queue_ok_def)
  moreover have "exclusive ?s" using assms
    by (auto simp: wf_def exclusive_def workers_increaseSize nth_append)
  moreover have "workers_ok ?s" using assms
    by (auto simp: wf_def workers_ok_def workers_increaseSize nth_append)
  moreover have "none_lost ?s" using assms
    by (simp add: wf_def none_lost_def workers_increaseSize)
  moreover have "join_ok ?s" using assms by (simp add: wf_def join_ok_def)
  moreover have "exits_ok ?s" using assms
    by (auto simp: wf_def exits_ok_def workers_increaseSize nth_append)
  ultimately show ?thesis using assms by (simp add: wf_def)
qed

lemma wf_submit:
  assumes "wf s"
  shows "wf (snd (submit f a s))"
proof -
  let ?s = "snd (submit f a s)"
  have s': "?s = s\<lparr>heap := heap s @ [\<lparr>callable = (\<lambda>_. f a), shared = Pending\<rparr>],
         tasks := tasks s @ [length (heap s)]\<rparr>"
    by (simp add: submit_def Let_def)
  have "queue_ok ?s" using assms unfolding s'
    by (auto simp: wf_def queue_ok_def nth_append)
  moreover have "exclusive ?s" using assms unfolding s'
    by (fastforce simp: wf_def exclusive_def workers_ok_def elim: worker_ok.elims)
  moreover have "workers_ok ?s"
    unfolding workers_ok_def
  proof (intro allI impI)
    fix i assume "i < length (workers ?s)"
    then have "worker_ok (heap s) (workers s ! i)" using assms unfolding s'
      by (simp add: wf_def workers_ok_def)
    then show "worker_ok (heap ?s) (workers ?s ! i)" unfolding s'
      by (cases "workers s ! i") (simp_all add: nth_append)
  qed
  moreover have "none_lost ?s" using assms unfolding s'
    by (auto simp: wf_def none_lost_def nth_append less_Suc_eq)
  moreover have "join_ok ?s" using assms unfolding s'
    by (simp add: wf_def join_ok_def split: option.splits)
  moreover have "exits_ok ?s" using assms unfolding s' by (simp add: wf_def exits_ok_def)
  ultimately show ?thesis using assms unfolding wf_def s' by simp
qed


lemma length_abandon [simp]: "length (abandon h hp) = length hp"
  by (simp add: abandon_def split: shared_state.splits)

lemma callable_abandon [simp]: "callable (abandon h hp ! k) = callable (hp ! k)"
  by (cases "k = h") (simp_all add: abandon_def split: shared_state.splits)

lemma shared_abandon:
  "shared (abandon h hp ! k) =
     (if k = h \<and> h < length hp \<and> shared (hp ! h) = Pending
      then Ready (Inl (future_error broken_promise)) else shared (hp ! k))"
  by (cases "k = h") (auto simp: abandon_def split: shared_state.splits)

lemma length_fold_abandon [simp]: "length (fold abandon ts hp) = length hp"
  by (induction ts arbitrary: hp) simp_all

lemma callable_fold_abandon [simp]: "callable (fold abandon ts hp ! k) = callable (hp ! k)"
  by (induction ts arbitrary: hp) simp_all

lemma shared_fold_abandon:
  "shared (fold abandon ts hp ! k) =
     (if k \<in> set ts \<and> k < length hp \<and> shared (hp ! k) = Pending
      then Ready (Inl (future_error broken_promise)) else shared (hp ! k))"
  by (induction ts arbitrary: hp) (auto simp: shared_abandon)

lemma wf_shutdown_enter:
  assumes "wf s" "joining s = None"
  shows "wf (shutdown_enter b s)"
proof (cases b)
  case True
  then show ?thesis using assms
    by (simp add: wf_def wf_defs shutdown_enter_def)
next
  case False
  let ?s = "shutdown_enter b s"
  have s': "?s = s\<lparr>heap := fold abandon (tasks s) (heap s), tasks := [], stopping := True,
             joining := Some 0\<rparr>"
    using False by (simp add: shutdown_enter_def)
  have "queue_ok ?s" unfolding s' by (simp add: queue_ok_def)
  moreover have "exclusive ?s" using assms unfolding s'
    by (simp add: wf_def exclusive_def)
  moreover have "workers_ok ?s"
    unfolding workers_ok_def
  proof (intro allI impI)
    fix i assume i: "i < length (workers ?s)"
    then have ok: "worker_ok (heap s) (workers s ! i)" using assms unfolding s'
      by (simp add: wf_def workers_ok_def)
    have ex: "\<And>h. holding (workers s ! i) = Some h \<Longrightarrow> h \<notin> set (tasks s)"
      using assms i unfolding s' by (simp add: wf_def exclusive_def)
    show "worker_ok (heap ?s) (workers ?s ! i)" using ok ex unfolding s'
      by (cases "workers s ! i") (simp_all add: shared_fold_abandon)
  qed
  moreover have "none_lost ?s" using assms unfolding s'
    by (auto simp: wf_def none_lost_def shared_fold_abandon split: if_splits)
  moreover have "join_ok ?s" unfolding s' by (simp add: join_ok_def)
  moreover have "exits_ok ?s" unfolding s' by (simp add: exits_ok_def)
  ultimately show ?thesis using assms unfolding wf_def s' by simp
qed

lemma shutdown_join_cases:
  assumes "shutdown_join s = Some s'"
  obtains (advance) k where "joining s = Some k" "k < length (workers s)" "workers s ! k = Exited"
      "s' = s\<lparr>joining := Some (Suc k)\<rparr>"
    | (clear) k where "joining s = Some k" "length (workers s) \<le> k"
      "s' = s\<lparr>workers := [], joining := None\<rparr>"
  using assms
  by (auto simp: shutdown_join_def split: option.splits if_splits worker.splits)

lemma wf_shutdown_join:
  assumes "wf s" "shutdown_join s = Some s'"
  shows "wf s'"
  using assms(2)
proof (cases rule: shutdown_join_cases)
  case (advance k)
  then show ?thesis using assms(1)
    by (auto simp: wf_def wf_defs less_Suc_eq)
next
  case (clear k)
  have all: "\<forall>j < length (workers s). workers s ! j = Exited"
    using assms(1) clear by (simp add: wf_def join_ok_def)
  have "none_lost s'"
    unfolding none_lost_def
  proof (intro allI impI)
    fix h assume h: "h < length (heap s')" "shared (heap s' ! h) = Pending"
    then have "h \<in> set (tasks s) \<or> held (workers s) h"
      using assms(1) clear by (simp add: wf_def none_lost_def)
    moreover have "\<not> held (workers s) h" using all by (auto simp: held_def)
    ultimately show "h \<in> set (tasks s') \<or> held (workers s') h" using clear by simp
  qed
  then show ?thesis using assms(1) clear
    by (simp add: wf_def queue_ok_def exclusive_def workers_ok_def join_ok_def exits_ok_def)
qed

lemma workerLoop_cases:
  assumes "workerLoop i s = Some s'"
  obtains (blocked) "workers s ! i = Waiting" "\<not> stopping s" "tasks s = []" "s' = s\<lparr>workers := (workers s)[i := Waiting]\<rparr>"
    | (exit) "workers s ! i = Waiting" "stopping s" "tasks s = []" "s' = s\<lparr>workers := (workers s)[i := Exited]\<rparr>"
    | (take) h q where "workers s ! i = Waiting" "tasks s = h # q"
        "s' = s\<lparr>tasks := q, activeWorkers := activeWorkers s + 1, workers := (workers s)[i := Executing h]\<rparr>"
    | (call) h where "workers s ! i = Executing h" "h < length (heap s)"
        "s' = (run_task h s)\<lparr>workers := (workers s)[i := Completed h]\<rparr>"
    | (finish) h where "workers s ! i = Completed h"
        "s' = s\<lparr>activeWorkers := activeWorkers s - 1, heap := abandon h (heap s),
                workers := (workers s)[i := Waiting]\<rparr>"
proof (cases "workers s ! i")
  case Waiting
  show ?thesis
  proof (cases "tasks s")
    case Nil
    with Waiting assms blocked exit show ?thesis
      by (cases "stopping s") (auto simp: workerLoop_def dequeue_or_wait_def wait_pred_def)
  next
    case (Cons h q)
    with Waiting assms take show ?thesis
      by (auto simp: workerLoop_def dequeue_or_wait_def wait_pred_def)
  qed
next
  case (Executing h)
  with assms call show ?thesis by (auto simp: workerLoop_def split: if_splits)
next
  case (Completed h)
  with assms finish show ?thesis by (auto simp: workerLoop_def)
next
  case Exited
  with assms show ?thesis by (simp add: workerLoop_def)
qed


lemma run_task_pending:
  assumes "shared (heap s ! h) = Pending"
  shows "run_task h s = s\<lparr>heap := (heap s)[h := (heap s ! h)\<lparr>shared := Ready (callable (heap s ! h) ())\<rparr>]\<rparr>"
  using assms by (simp add: run_task_def invoke_def)

lemma exclusive_move:
  assumes ex: "exclusive s" and i: "i < length (workers s)"
    and ws: "workers s' = (workers s)[i := w]"
    and q: "set (tasks s') \<subseteq> set (tasks s)"
    and w: "\<And>h. holding w = Some h \<Longrightarrow>
       h \<notin> set (tasks s') \<and> (\<forall>j < length (workers s). j \<noteq> i \<longrightarrow> holding (workers s ! j) \<noteq> Some h)"
  shows "exclusive s'"
  unfolding exclusive_def
proof (intro allI impI)
  fix a h
  assume a: "a < length (workers s')" and h: "holding (workers s' ! a) = Some h"
  show "h \<notin> set (tasks s') \<and>
    (\<forall>j < length (workers s'). j \<noteq> a \<longrightarrow> holding (workers s' ! j) \<noteq> Some h)"
  proof (cases "a = i")
    case True
    with h i ws have hw: "holding w = Some h" by simp
    from w[OF hw] have 1: "h \<notin> set (tasks s')"
      and 2: "\<forall>j < length (workers s). j \<noteq> i \<longrightarrow> holding (workers s ! j) \<noteq> Some h" by auto
    have "\<forall>j < length (workers s'). j \<noteq> a \<longrightarrow> holding (workers s' ! j) \<noteq> Some h"
      using 2 True ws by simp
    with 1 show ?thesis by simp
  next
    case False
    with h a ws have ha: "a < length (workers s)" "holding (workers s ! a) = Some h" by simp_all
    from ex ha have 1: "h \<notin> set (tasks s)"
      and 2: "\<forall>j < length (workers s). j \<noteq> a \<longrightarrow> holding (workers s ! j) \<noteq> Some h"
      unfolding exclusive_def by blast+
    have 3: "holding w \<noteq> Some h"
    proof
      assume "holding w = Some h"
      from w[OF this] ha False show False by blast
    qed
    have "\<forall>j < length (workers s'). j \<noteq> a \<longrightarrow> holding (workers s' ! j) \<noteq> Some h"
    proof (intro allI impI)
      fix j assume j: "j < length (workers s')" "j \<noteq> a"
      show "holding (workers s' ! j) \<noteq> Some h"
      proof (cases "j = i")
        case True with 3 i ws show ?thesis by simp
      next
        case False with 2 j ws show ?thesis by simp
      qed
    qed
    with 1 q show ?thesis by blast
  qed
qed

lemma workers_ok_move:
  assumes ok: "workers_ok s" and i: "i < length (workers s)"
    and ws: "workers s' = (workers s)[i := w]"
    and w: "worker_ok (heap s') w"
    and frame: "\<And>j. j < length (workers s) \<Longrightarrow> j \<noteq> i \<Longrightarrow>
        worker_ok (heap s) (workers s ! j) \<Longrightarrow> worker_ok (heap s') (workers s ! j)"
  shows "workers_ok s'"
  unfolding workers_ok_def
proof (intro allI impI)
  fix j assume j: "j < length (workers s')"
  show "worker_ok (heap s') (workers s' ! j)"
  proof (cases "j = i")
    case True with w i ws show ?thesis by simp
  next
    case False
    with j ws have "j < length (workers s)" by simp
    with ok frame False have "worker_ok (heap s') (workers s ! j)"
      unfolding workers_ok_def by blast
    with False ws show ?thesis by simp
  qed
qed

lemma join_ok_move:
  assumes ok: "join_ok s" and ws: "workers s' = (workers s)[i := w]"
    and same: "joining s' = joining s" "stopping s' = stopping s"
    and live: "workers s ! i \<noteq> Exited"
  shows "join_ok s'"
proof (cases "joining s")
  case None
  with same show ?thesis by (simp add: join_ok_def)
next
  case (Some k)
  with ok have k: "stopping s" "k \<le> length (workers s)" "\<forall>j < k. workers s ! j = Exited"
    by (simp_all add: join_ok_def)
  have "\<forall>j < k. workers s' ! j = Exited"
  proof (intro allI impI)
    fix j assume j: "j < k"
    with k live have "j \<noteq> i" by auto
    with j k ws show "workers s' ! j = Exited" by simp
  qed
  with k Some same ws show ?thesis by (simp add: join_ok_def)
qed

lemma exits_ok_move:
  assumes ok: "exits_ok s" and ws: "workers s' = (workers s)[i := w]"
    and same: "stopping s' = stopping s" and w: "w = Exited \<Longrightarrow> stopping s"
  shows "exits_ok s'"
  unfolding exits_ok_def
proof (intro impI allI)
  fix j assume ns: "\<not> stopping s'" and j: "j < length (workers s')"
  show "workers s' ! j \<noteq> Exited"
  proof (cases "j = i")
    case True
    with ns same w j ws show ?thesis by auto
  next
    case False
    with ok ns same j ws show ?thesis by (simp add: exits_ok_def)
  qed
qed

lemma none_lost_move:
  assumes ok: "none_lost s" and i: "i < length (workers s)"
    and ws: "workers s' = (workers s)[i := w]"
    and len: "length (heap s') = length (heap s)"
    and frame: "\<And>k. k < length (heap s) \<Longrightarrow> shared (heap s' ! k) = Pending \<Longrightarrow>
       shared (heap s ! k) = Pending \<and>
       (k \<in> set (tasks s) \<longrightarrow> k \<in> set (tasks s') \<or> holding w = Some k) \<and>
       (holding (workers s ! i) = Some k \<longrightarrow> holding w = Some k)"
  shows "none_lost s'"
  unfolding none_lost_def
proof (intro allI impI)
  fix k assume k: "k < length (heap s')" "shared (heap s' ! k) = Pending"
  with len have kl: "k < length (heap s)" by simp
  from frame[OF kl k(2)] have p: "shared (heap s ! k) = Pending"
    and t: "k \<in> set (tasks s) \<Longrightarrow> k \<in> set (tasks s') \<or> holding w = Some k"
    and h: "holding (workers s ! i) = Some k \<Longrightarrow> holding w = Some k" by auto
  from ok kl p have "k \<in> set (tasks s) \<or> held (workers s) k" by (simp add: none_lost_def)
  then show "k \<in> set (tasks s') \<or> held (workers s') k"
  proof
    assume "k \<in> set (tasks s)"
    from t[OF this] i ws show ?thesis by (auto simp: held_update)
  next
    assume hd: "held (workers s) k"
    show ?thesis
    proof (cases "holding (workers s ! i) = Some k")
      case True
      from h[OF this] i ws show ?thesis by (simp add: held_update)
    next
      case False
      with hd i ws show ?thesis by (simp add: held_other)
    qed
  qed
qed


lemma worker_at:
  assumes "workers_ok s" "i < length (workers s)"
  shows "worker_ok (heap s) (workers s ! i)"
  using assms by (simp add: workers_ok_def)

lemma holder_unique:
  assumes "exclusive s" "i < length (workers s)" "holding (workers s ! i) = Some h"
    "j < length (workers s)" "j \<noteq> i"
  shows "holding (workers s ! j) \<noteq> Some h"
  using assms unfolding exclusive_def by blast

lemma holder_not_queued:
  assumes "exclusive s" "i < length (workers s)" "holding (workers s ! i) = Some h"
  shows "h \<notin> set (tasks s)"
  using assms unfolding exclusive_def by blast

lemma wf_workerLoop:
  assumes wf: "wf s" and i: "i < length (workers s)" and step: "workerLoop i s = Some s'"
  shows "wf s'"
proof -
  from wf have qk: "queue_ok s" and ex: "exclusive s" and wk: "workers_ok s"
    and nl: "none_lost s" and ce: "cerr s = []" and jk: "join_ok s" and ek: "exits_ok s"
    by (simp_all add: wf_def)
  from step show ?thesis
  proof (cases rule: workerLoop_cases)
    case blocked
    have "(workers s)[i := Waiting] = workers s"
      using blocked(1) by (metis list_update_id)
    with blocked have "s' = s" by simp
    with wf show ?thesis by simp
  next
    case exit
    have ws: "workers s' = (workers s)[i := Exited]" using exit by simp
    have "queue_ok s'" using qk exit by (simp add: queue_ok_def)
    moreover have "exclusive s'"
      by (rule exclusive_move[OF ex i ws]) (simp_all add: exit)
    moreover have "workers_ok s'"
      by (rule workers_ok_move[OF wk i ws]) (simp_all add: exit)
    moreover have "none_lost s'"
      by (rule none_lost_move[OF nl i ws]) (simp_all add: exit)
    moreover have "join_ok s'"
      by (rule join_ok_move[OF jk ws]) (simp_all add: exit)
    moreover have "exits_ok s'"
      by (rule exits_ok_move[OF ek ws]) (simp_all add: exit)
    ultimately show ?thesis using ce exit by (simp add: wf_def)
  next
    case (take h q)
    have ws: "workers s' = (workers s)[i := Executing h]" using take by simp
    have q: "h \<notin> set q" "distinct q" "h < length (heap s)" "shared (heap s ! h) = Pending"
      using qk take by (auto simp: queue_ok_def)
    have nh: "\<And>j. j < length (workers s) \<Longrightarrow> holding (workers s ! j) \<noteq> Some h"
      using ex take unfolding exclusive_def by (metis list.set_intros(1))
    have "queue_ok s'" using qk take by (simp add: queue_ok_def)
    moreover have "exclusive s'"
      by (rule exclusive_move[OF ex i ws]) (auto simp: take q nh)
    moreover have "workers_ok s'"
      by (rule workers_ok_move[OF wk i ws]) (simp_all add: take q)
    moreover have "none_lost s'"
      by (rule none_lost_move[OF nl i ws]) (auto simp: take)
    moreover have "join_ok s'"
      by (rule join_ok_move[OF jk ws]) (simp_all add: take)
    moreover have "exits_ok s'"
      by (rule exits_ok_move[OF ek ws]) (simp_all add: take)
    ultimately show ?thesis using ce take by (simp add: wf_def)
  next
    case (call h)
    have p: "shared (heap s ! h) = Pending"
      using worker_at[OF wk i] call by simp
    let ?hp = "(heap s)[h := (heap s ! h)\<lparr>shared := Ready (callable (heap s ! h) ())\<rparr>]"
    have s': "s' = s\<lparr>heap := ?hp, workers := (workers s)[i := Completed h]\<rparr>"
      using call p by (simp add: run_task_pending)
    have ws: "workers s' = (workers s)[i := Completed h]" using s' by simp
    have hi: "holding (workers s ! i) = Some h" using call by simp
    have ne: "\<And>k. k \<in> set (tasks s) \<Longrightarrow> h \<noteq> k"
      using holder_not_queued[OF ex i hi] by auto
    then have "queue_ok s'" using qk unfolding s' by (simp add: queue_ok_def)
    moreover have "exclusive s'"
      by (rule exclusive_move[OF ex i ws])
         (use holder_not_queued[OF ex i hi] holder_unique[OF ex i hi] in \<open>auto simp: s'\<close>)
    moreover have "workers_ok s'"
    proof (rule workers_ok_move[OF wk i ws])
      show "worker_ok (heap s') (Completed h)" using call(2) unfolding s' by simp
    next
      fix j assume j: "j < length (workers s)" "j \<noteq> i" "worker_ok (heap s) (workers s ! j)"
      from holder_unique[OF ex i hi j(1,2)] j(3)
      show "worker_ok (heap s') (workers s ! j)" unfolding s'
        by (cases "workers s ! j") (simp_all add: nth_list_update)
    qed
    moreover have "none_lost s'"
    proof (rule none_lost_move[OF nl i ws])
      show "length (heap s') = length (heap s)" by (simp add: s')
    next
      fix k assume k: "k < length (heap s)" "shared (heap s' ! k) = Pending"
      then have "k \<noteq> h" unfolding s' using call(2) by auto
      with k show "shared (heap s ! k) = Pending \<and>
         (k \<in> set (tasks s) \<longrightarrow> k \<in> set (tasks s') \<or> holding (Completed h) = Some k) \<and>
         (holding (workers s ! i) = Some k \<longrightarrow> holding (Completed h) = Some k)"
        unfolding s' by (simp add: hi)
    qed
    moreover have "join_ok s'"
      by (rule join_ok_move[OF jk ws]) (simp_all add: s' call(1))
    moreover have "exits_ok s'"
      by (rule exits_ok_move[OF ek ws]) (simp_all add: s')
    ultimately show ?thesis using ce unfolding s' by (simp add: wf_def)
  next
    case (finish h)
    have r: "h < length (heap s)" "shared (heap s ! h) = Ready (callable (heap s ! h) ())"
      using worker_at[OF wk i] finish by simp_all
    then have ab: "abandon h (heap s) = heap s" by (simp add: abandon_def)
    have s': "s' = s\<lparr>activeWorkers := activeWorkers s - 1, workers := (workers s)[i := Waiting]\<rparr>"
      using finish ab by simp
    have ws: "workers s' = (workers s)[i := Waiting]" using s' by simp
    have "queue_ok s'" using qk unfolding s' by (simp add: queue_ok_def)
    moreover have "exclusive s'"
      by (rule exclusive_move[OF ex i ws]) (simp_all add: s')
    moreover have "workers_ok s'"
      by (rule workers_ok_move[OF wk i ws]) (simp_all add: s')
    moreover have "none_lost s'"
      by (rule none_lost_move[OF nl i ws]) (use r finish in \<open>auto simp: s'\<close>)
    moreover have "join_ok s'"
      by (rule join_ok_move[OF jk ws]) (simp_all add: s' finish)
    moreover have "exits_ok s'"
      by (rule exits_ok_move[OF ek ws]) (simp_all add: s')
    ultimately show ?thesis using ce unfolding s' by (simp add: wf_def)
  qed
qed

lemma wf_step:
  assumes "wf s" "step e s = Some s'"
  shows "wf s'"
proof (cases e)
  case (Submit f a)
  with assms wf_submit[of s f a] show ?thesis by auto
next
  case (IncreaseSize n)
  with assms wf_increaseSize[of s n] show ?thesis by (auto split: if_splits)
next
  case (Shutdown b)
  with assms wf_shutdown_enter[of s b] show ?thesis by (auto split: if_splits)
next
  case Join
  with assms wf_shutdown_join[of s s'] show ?thesis by simp
next
  case (Work i)
  with assms wf_workerLoop[of s i s'] show ?thesis by (auto split: if_splits)
qed

lemma wf_run:
  assumes "wf s" "run evs s = Some s'"
  shows "wf s'"
  using assms
  by (induction evs arbitrary: s) (auto split: option.splits dest: wf_step)

section \<open>The heap of packaged tasks along an execution\<close>

lemma follows_refl [simp]: "follows s s"
  by (simp add: follows_def)

lemma follows_trans:
  assumes "follows s t" "follows t u"
  shows "follows s u"
  unfolding follows_def
proof (intro conjI allI impI)
  show "length (heap s) \<le> length (heap u)" using assms by (simp add: follows_def)
next
  fix h assume h: "h < length (heap s)"
  then have ht: "h < length (heap t)" using assms(1) by (simp add: follows_def)
  from assms(1) h have 1: "callable (heap t ! h) = callable (heap s ! h)"
    "shared (heap t ! h) = shared (heap s ! h) \<or>
     shared (heap s ! h) = Pending \<and> shared (heap t ! h) = Ready (callable (heap s ! h) ())"
    by (simp_all add: follows_def)
  from assms(2) ht have 2: "callable (heap u ! h) = callable (heap t ! h)"
    "shared (heap u ! h) = shared (heap t ! h) \<or>
     shared (heap t ! h) = Pending \<and> shared (heap u ! h) = Ready (callable (heap t ! h) ())"
    by (simp_all add: follows_def)
  show "callable (heap u ! h) = callable (heap s ! h)" using 1 2 by simp
  show "shared (heap u ! h) = shared (heap s ! h) \<or>
     shared (heap s ! h) = Pending \<and> shared (heap u ! h) = Ready (callable (heap s ! h) ())"
    using 1 2 by auto
qed

lemma follows_or_breaks_refl [simp]: "follows_or_breaks s s"
  by (simp add: follows_or_breaks_def)

lemma follows_or_breaks_trans:
  assumes "follows_or_breaks s t" "follows_or_breaks t u"
  shows "follows_or_breaks s u"
  unfolding follows_or_breaks_def
proof (intro conjI allI impI)
  show "length (heap s) \<le> length (heap u)" using assms by (simp add: follows_or_breaks_def)
next
  fix h assume h: "h < length (heap s)"
  then have ht: "h < length (heap t)" using assms(1) by (simp add: follows_or_breaks_def)
  from assms(1) h have 1: "callable (heap t ! h) = callable (heap s ! h)"
    "shared (heap t ! h) = shared (heap s ! h) \<or>
     shared (heap s ! h) = Pending \<and>
      (shared (heap t ! h) = Ready (callable (heap s ! h) ()) \<or>
       shared (heap t ! h) = Ready (Inl (future_error broken_promise)))"
    by (simp_all add: follows_or_breaks_def)
  from assms(2) ht have 2: "callable (heap u ! h) = callable (heap t ! h)"
    "shared (heap u ! h) = shared (heap t ! h) \<or>
     shared (heap t ! h) = Pending \<and>
      (shared (heap u ! h) = Ready (callable (heap t ! h) ()) \<or>
       shared (heap u ! h) = Ready (Inl (future_error broken_promise)))"
    by (simp_all add: follows_or_breaks_def)
  show "callable (heap u ! h) = callable (heap s ! h)" using 1 2 by simp
  show "shared (heap u ! h) = shared (heap s ! h) \<or>
     shared (heap s ! h) = Pending \<and>
      (shared (heap u ! h) = Ready (callable (heap s ! h) ()) \<or>
       shared (heap u ! h) = Ready (Inl (future_error broken_promise)))"
    using 1 2 by auto
qed

lemma follows_imp_breaks: "follows s s' \<Longrightarrow> follows_or_breaks s s'"
  by (auto simp: follows_def follows_or_breaks_def)

text \<open>What the call of line 83 does to the heap, whatever the shared state was.\<close>

lemma heap_run_task:
  "heap (run_task h s) =
     (case shared (heap s ! h) of
        Pending \<Rightarrow> (heap s)[h := (heap s ! h)\<lparr>shared := Ready (callable (heap s ! h) ())\<rparr>]
      | Ready r \<Rightarrow> heap s)"
  by (simp add: run_task_def invoke_def split: shared_state.splits)

lemma follows_or_breaks_step:
  assumes "step e s = Some s'"
  shows "follows_or_breaks s s'"
proof (cases e)
  case (Submit f a)
  with assms show ?thesis
    by (auto simp: follows_or_breaks_def submit_def Let_def nth_append)
next
  case (IncreaseSize n)
  with assms show ?thesis by (auto simp: follows_or_breaks_def split: if_splits)
next
  case (Shutdown b)
  with assms show ?thesis
    by (cases b) (auto simp: follows_or_breaks_def shutdown_enter_def shared_fold_abandon
        split: if_splits)
next
  case Join
  with assms have "shutdown_join s = Some s'" by simp
  then show ?thesis by (cases rule: shutdown_join_cases) (simp_all add: follows_or_breaks_def)
next
  case (Work i)
  with assms have "workerLoop i s = Some s'" by (auto split: if_splits)
  then show ?thesis
  proof (cases rule: workerLoop_cases)
    case (call h)
    then show ?thesis
      by (cases "shared (heap s ! h)")
         (auto simp: follows_or_breaks_def heap_run_task nth_list_update)
  next
    case (finish h)
    then show ?thesis by (auto simp: follows_or_breaks_def shared_abandon)
  qed (simp_all add: follows_or_breaks_def)
qed

lemma follows_step:
  assumes "wf s" "step e s = Some s'" "e \<noteq> Shutdown False"
  shows "follows s s'"
proof (cases e)
  case (Submit f a)
  with assms show ?thesis
    by (auto simp: follows_def submit_def Let_def nth_append)
next
  case (IncreaseSize n)
  with assms show ?thesis by (auto simp: follows_def split: if_splits)
next
  case (Shutdown b)
  with assms show ?thesis
    by (cases b) (auto simp: follows_def shutdown_enter_def split: if_splits)
next
  case Join
  with assms have "shutdown_join s = Some s'" by simp
  then show ?thesis by (cases rule: shutdown_join_cases) (simp_all add: follows_def)
next
  case (Work i)
  with assms have i: "i < length (workers s)" and w: "workerLoop i s = Some s'"
    by (auto split: if_splits)
  from assms(1) have wk: "workers_ok s" by (simp add: wf_def)
  from w show ?thesis
  proof (cases rule: workerLoop_cases)
    case (call h)
    then show ?thesis
      by (cases "shared (heap s ! h)")
         (auto simp: follows_def heap_run_task nth_list_update)
  next
    case (finish h)
    with worker_at[OF wk i] have "abandon h (heap s) = heap s" by (simp add: abandon_def)
    with finish show ?thesis by (simp add: follows_def)
  qed (simp_all add: follows_def)
qed

lemma follows_or_breaks_run:
  assumes "run evs s = Some s'"
  shows "follows_or_breaks s s'"
  using assms
proof (induction evs arbitrary: s)
  case Nil
  then show ?case by simp
next
  case (Cons e es)
  then obtain s1 where 1: "step e s = Some s1" and 2: "run es s1 = Some s'"
    by (auto split: option.splits)
  from follows_or_breaks_step[OF 1] Cons.IH[OF 2] show ?case
    by (rule follows_or_breaks_trans)
qed

lemma follows_run:
  assumes "wf s" "run evs s = Some s'" "Shutdown False \<notin> set evs"
  shows "follows s s'"
  using assms
proof (induction evs arbitrary: s)
  case Nil
  then show ?case by simp
next
  case (Cons e es)
  then obtain s1 where 1: "step e s = Some s1" and 2: "run es s1 = Some s'"
    by (auto split: option.splits)
  from Cons.prems have ne: "e \<noteq> Shutdown False" "Shutdown False \<notin> set es" by auto
  have "wf s1" using wf_step[OF Cons.prems(1) 1] .
  from follows_step[OF Cons.prems(1) 1 ne(1)] Cons.IH[OF this 2 ne(2)] show ?case
    by (rule follows_trans)
qed

section \<open>Order and uniqueness of the tasks handed to workers\<close>

text \<open>One step keeps the queue in order: what was queued or is submitted by the step is
  what the step hands to a worker followed by what is queued afterwards.\<close>

lemma fifo_step:
  assumes "step e s = Some s'" "e \<noteq> Shutdown False"
  shows "tasks s @ submitted_by e s = map snd (received_by e s) @ tasks s'"
proof (cases e)
  case (Submit f a)
  with assms show ?thesis by (auto simp: submit_def Let_def)
next
  case (IncreaseSize n)
  with assms show ?thesis by (auto split: if_splits)
next
  case (Shutdown b)
  with assms show ?thesis by (cases b) (auto simp: shutdown_enter_def split: if_splits)
next
  case Join
  with assms have "shutdown_join s = Some s'" by simp
  then show ?thesis using Join by (cases rule: shutdown_join_cases) simp_all
next
  case (Work i)
  with assms have i: "i < length (workers s)" and w: "workerLoop i s = Some s'"
    by (auto split: if_splits)
  from w show ?thesis
  proof (cases rule: workerLoop_cases)
    case blocked
    with i Work show ?thesis by (simp add: dequeue_or_wait_def wait_pred_def)
  next
    case exit
    with i Work show ?thesis by (simp add: dequeue_or_wait_def wait_pred_def)
  next
    case (take h q)
    with i Work show ?thesis by (simp add: dequeue_or_wait_def wait_pred_def)
  next
    case (call h)
    with i Work show ?thesis by (simp add: run_task_def split: prod.splits option.splits exn.splits)
  next
    case (finish h)
    with i Work show ?thesis by simp
  qed
qed

lemma fifo_run:
  assumes "run evs s = Some s'" "Shutdown False \<notin> set evs"
  shows "tasks s @ submitted evs s = map snd (received evs s) @ tasks s'"
  using assms
proof (induction evs arbitrary: s)
  case Nil
  then show ?case by simp
next
  case (Cons e es)
  then obtain s1 where 1: "step e s = Some s1" and 2: "run es s1 = Some s'"
    by (auto split: option.splits)
  from Cons.prems have ne: "e \<noteq> Shutdown False" "Shutdown False \<notin> set es" by auto
  have "tasks s @ submitted (e # es) s = (tasks s @ submitted_by e s) @ submitted es s1"
    using 1 by simp
  also have "\<dots> = map snd (received_by e s) @ (tasks s1 @ submitted es s1)"
    using fifo_step[OF 1 ne(1)] by simp
  also have "\<dots> = map snd (received_by e s) @ map snd (received es s1) @ tasks s'"
    using Cons.IH[OF 2 ne(2)] by simp
  also have "\<dots> = map snd (received (e # es) s) @ tasks s'"
    using 1 by simp
  finally show ?case .
qed

text \<open>A step hands out a task only from the queue, and leaves in the queue only what was
  there or was allocated by the step.\<close>

lemma received_by_cases:
  "received_by e s = [] \<or>
   (\<exists>i h q. e = Work i \<and> i < length (workers s) \<and> workers s ! i = Waiting \<and>
       tasks s = h # q \<and> received_by e s = [(i, h)])"
proof (cases e)
  case (Work i)
  show ?thesis
  proof (cases "i < length (workers s) \<and> workers s ! i = Waiting")
    case True
    then show ?thesis using Work
      by (cases "tasks s") (auto simp: dequeue_or_wait_def wait_pred_def)
  next
    case False
    then show ?thesis using Work by (auto split: worker.splits)
  qed
qed simp_all

lemma tasks_step:
  assumes "step e s = Some s'"
  shows "length (heap s) \<le> length (heap s')"
    and "set (tasks s') \<subseteq> set (tasks s) \<union> {h. length (heap s) \<le> h}"
    and "received_by e s = [(i, h)] \<Longrightarrow> tasks s = h # tasks s' \<and> heap s' = heap s"
proof -
  have "length (heap s) \<le> length (heap s') \<and>
    set (tasks s') \<subseteq> set (tasks s) \<union> {h. length (heap s) \<le> h} \<and>
    (received_by e s = [(i, h)] \<longrightarrow> tasks s = h # tasks s' \<and> heap s' = heap s)"
  proof (cases e)
    case (Submit f a)
    with assms show ?thesis by (auto simp: submit_def Let_def)
  next
    case (IncreaseSize n)
    with assms show ?thesis by (auto split: if_splits)
  next
    case (Shutdown b)
    with assms show ?thesis by (cases b) (auto simp: shutdown_enter_def split: if_splits)
  next
    case Join
    with assms have "shutdown_join s = Some s'" by simp
    then show ?thesis using Join by (cases rule: shutdown_join_cases) simp_all
  next
    case (Work j)
    with assms have j: "j < length (workers s)" and w: "workerLoop j s = Some s'"
      by (auto split: if_splits)
    from w show ?thesis
    proof (cases rule: workerLoop_cases)
      case blocked
      with j Work show ?thesis by (simp add: dequeue_or_wait_def wait_pred_def)
    next
      case exit
      with j Work show ?thesis by (simp add: dequeue_or_wait_def wait_pred_def)
    next
      case (take h' q)
      with j Work show ?thesis by (auto simp: dequeue_or_wait_def wait_pred_def)
    next
      case (call h')
      with j Work show ?thesis by (cases "shared (heap s ! h')") (simp_all add: heap_run_task run_task_def invoke_def)
    next
      case (finish h')
      with j Work show ?thesis by simp
    qed
  qed
  then show "length (heap s) \<le> length (heap s')"
    and "set (tasks s') \<subseteq> set (tasks s) \<union> {h. length (heap s) \<le> h}"
    and "received_by e s = [(i, h)] \<Longrightarrow> tasks s = h # tasks s' \<and> heap s' = heap s"
    by blast+
qed

lemma received_once:
  assumes "wf s" "run evs s = Some s'"
  shows "distinct (map snd (received evs s)) \<and>
    snd ` set (received evs s) \<subseteq> set (tasks s) \<union> {h. length (heap s) \<le> h}"
  using assms
proof (induction evs arbitrary: s)
  case Nil
  then show ?case by simp
next
  case (Cons e es)
  then obtain s1 where 1: "step e s = Some s1" and 2: "run es s1 = Some s'"
    by (auto split: option.splits)
  have wf1: "wf s1" using wf_step[OF Cons.prems(1) 1] .
  from Cons.IH[OF wf1 2] have d: "distinct (map snd (received es s1))"
    and sub: "snd ` set (received es s1) \<subseteq> set (tasks s1) \<union> {h. length (heap s1) \<le> h}"
    by auto
  have r: "received (e # es) s = received_by e s @ received es s1" using 1 by simp
  have sub1: "snd ` set (received es s1) \<subseteq> set (tasks s) \<union> {h. length (heap s) \<le> h}"
    using sub tasks_step(1,2)[OF 1] by fastforce
  from received_by_cases[of e s] show ?case
  proof
    assume "received_by e s = []"
    with r d sub1 show ?thesis by simp
  next
    assume "\<exists>i h q. e = Work i \<and> i < length (workers s) \<and> workers s ! i = Waiting \<and>
       tasks s = h # q \<and> received_by e s = [(i, h)]"
    then obtain i h q where rb: "received_by e s = [(i, h)]" and t: "tasks s = h # q" by blast
    from tasks_step(3)[OF 1 rb] t have q: "tasks s1 = q" "heap s1 = heap s" by simp_all
    from Cons.prems(1) t have hq: "h \<notin> set q" "h < length (heap s)"
      by (auto simp: wf_def queue_ok_def)
    have "h \<notin> snd ` set (received es s1)" using sub q hq by auto
    with r rb d sub1 t show ?thesis by auto
  qed
qed

section \<open>Drain shutdown\<close>

lemma internal_cases:
  assumes "internal e"
  obtains "e = Join" | i where "e = Work i"
  using assms by (cases e) simp_all

text \<open>Once the worker vector is cleared and \<^verbatim>\<open>shutdown\<close> has returned, no worker or join
  step exists.\<close>

lemma run_internal_after_return:
  assumes "run evs s = Some s'" "list_all internal evs" "joining s = None" "workers s = []"
  shows "evs = []"
proof (cases evs)
  case (Cons e es)
  with assms have "internal e" by simp
  then have "step e s = None" using assms(3,4)
    by (cases rule: internal_cases) (simp_all add: shutdown_join_def)
  with assms(1) Cons show ?thesis by simp
qed simp

lemma draining_step:
  assumes wf: "wf s" and j: "joining s \<noteq> None" and d: "draining s"
    and st: "step e s = Some s'" and e: "internal e"
  shows "(joining s' = None \<and> tasks s' = [] \<and> workers s' = []) \<or>
         (joining s' \<noteq> None \<and> draining s')"
  using e
proof (cases rule: internal_cases)
  case 1
  with st have "shutdown_join s = Some s'" by simp
  then show ?thesis
  proof (cases rule: shutdown_join_cases)
    case (advance k)
    with d show ?thesis by (simp add: draining_def)
  next
    case (clear k)
    with wf have "\<forall>i < length (workers s). workers s ! i = Exited"
      by (simp add: wf_def join_ok_def)
    with d have "tasks s = []" by (auto simp: draining_def)
    with clear show ?thesis by simp
  qed
next
  case (2 i)
  with st have i: "i < length (workers s)" and w: "workerLoop i s = Some s'"
    by (auto split: if_splits)
  from w show ?thesis
  proof (cases rule: workerLoop_cases)
    case blocked
    have "(workers s)[i := Waiting] = workers s" using blocked(1) by (metis list_update_id)
    with blocked have "s' = s" by simp
    with j d show ?thesis by simp
  next
    case exit
    with j show ?thesis by (simp add: draining_def)
  next
    case (take h q)
    with i j have "joining s' \<noteq> None" "i < length (workers s')" "workers s' ! i \<noteq> Exited"
      by simp_all
    then show ?thesis unfolding draining_def by blast
  next
    case (call h)
    with i j have "joining s' \<noteq> None" "i < length (workers s')" "workers s' ! i \<noteq> Exited"
      by (simp_all add: run_task_def split: prod.splits option.splits exn.splits)
    then show ?thesis unfolding draining_def by blast
  next
    case (finish h)
    with i j have "joining s' \<noteq> None" "i < length (workers s')" "workers s' ! i \<noteq> Exited"
      by simp_all
    then show ?thesis unfolding draining_def by blast
  qed
qed

lemma draining_run:
  assumes "wf s" "joining s \<noteq> None" "draining s"
    "run evs s = Some s'" "list_all internal evs" "joining s' = None"
  shows "tasks s' = [] \<and> workers s' = []"
  using assms
proof (induction evs arbitrary: s)
  case Nil
  then show ?case by simp
next
  case (Cons e es)
  then obtain s1 where 1: "step e s = Some s1" and 2: "run es s1 = Some s'"
    by (auto split: option.splits)
  from Cons.prems have e: "internal e" and es: "list_all internal es" by simp_all
  have wf1: "wf s1" using wf_step[OF Cons.prems(1) 1] .
  from draining_step[OF Cons.prems(1,2,3) 1 e] show ?case
  proof
    assume r: "joining s1 = None \<and> tasks s1 = [] \<and> workers s1 = []"
    with run_internal_after_return[OF 2 es] have "es = []" by simp
    with 2 r show ?thesis by simp
  next
    assume "joining s1 \<noteq> None \<and> draining s1"
    with Cons.IH[OF wf1 _ _ 2 es Cons.prems(6)] show ?thesis by simp
  qed
qed

lemma internal_not_discard:
  assumes "list_all internal evs"
  shows "Shutdown False \<notin> set evs"
  using assms by (induction evs) auto

lemma internal_heap_length:
  assumes "run evs s = Some s'" "list_all internal evs"
  shows "length (heap s') = length (heap s)"
  using assms
proof (induction evs arbitrary: s)
  case Nil
  then show ?case by simp
next
  case (Cons e es)
  then obtain s1 where st: "step e s = Some s1" and rest: "run es s1 = Some s'"
    by (auto split: option.splits)
  from Cons.prems have e: "internal e" and es: "list_all internal es" by simp_all
  have "length (heap s1) = length (heap s)"
    using e
  proof (cases rule: internal_cases)
    case 1
    with st show ?thesis
      by (auto simp: shutdown_join_def split: option.splits if_splits worker.splits)
  next
    case (2 i)
    with st have "workerLoop i s = Some s1" by (auto split: if_splits)
    then show ?thesis
    proof (cases rule: workerLoop_cases)
      case (call h)
      then show ?thesis by (cases "shared (heap s ! h)") (simp_all add: heap_run_task)
    qed simp_all
  qed
  with Cons.IH[OF rest es] show ?case by simp
qed

text \<open>Drain shutdown, safety: when the call returns, the queue and the worker vector are
  empty and every task that was pending at the call has been run.\<close>

lemma drain_returns_all_done:
  assumes wf: "wf s" and j: "joining s = None"
    and live: "\<exists>i < length (workers s). workers s ! i \<noteq> Exited"
    and run: "run evs (shutdown_enter True s) = Some s'"
    and int: "list_all internal evs" and ret: "joining s' = None"
  shows "tasks s' = []" "workers s' = []" "length (heap s') = length (heap s)"
    "\<forall>h < length (heap s). shared (heap s' ! h) \<noteq> Pending \<and>
       (shared (heap s ! h) = Pending \<longrightarrow> shared (heap s' ! h) = Ready (callable (heap s ! h) ()))
       \<and> (shared (heap s ! h) \<noteq> Pending \<longrightarrow> shared (heap s' ! h) = shared (heap s ! h))"
proof -
  let ?s1 = "shutdown_enter True s"
  have s1: "?s1 = s\<lparr>stopping := True, joining := Some 0\<rparr>" by (simp add: shutdown_enter_def)
  have wf1: "wf ?s1" using wf j by (rule wf_shutdown_enter)
  have d1: "draining ?s1" using live unfolding s1 by (simp add: draining_def)
  have j1: "joining ?s1 \<noteq> None" unfolding s1 by simp
  from draining_run[OF wf1 j1 d1 run int ret]
  show e: "tasks s' = []" and w: "workers s' = []" by simp_all
  have len1: "length (heap s') = length (heap ?s1)" using internal_heap_length[OF run int] .
  then show len: "length (heap s') = length (heap s)" unfolding s1 by simp
  have wf': "wf s'" using wf_run[OF wf1 run] .
  have f: "follows ?s1 s'" using follows_run[OF wf1 run internal_not_discard[OF int]] .
  show "\<forall>h < length (heap s). shared (heap s' ! h) \<noteq> Pending \<and>
       (shared (heap s ! h) = Pending \<longrightarrow> shared (heap s' ! h) = Ready (callable (heap s ! h) ()))
       \<and> (shared (heap s ! h) \<noteq> Pending \<longrightarrow> shared (heap s' ! h) = shared (heap s ! h))"
  proof (intro allI impI)
    fix h assume h: "h < length (heap s)"
    have np: "shared (heap s' ! h) \<noteq> Pending"
    proof
      assume "shared (heap s' ! h) = Pending"
      with wf' h len have "h \<in> set (tasks s') \<or> held (workers s') h"
        by (simp add: wf_def none_lost_def)
      with e w show False by simp
    qed
    from f h have "shared (heap s' ! h) = shared (heap s ! h) \<or>
          shared (heap s ! h) = Pending \<and>
          shared (heap s' ! h) = Ready (callable (heap s ! h) ())"
      unfolding s1 by (simp add: follows_def)
    with np show "shared (heap s' ! h) \<noteq> Pending \<and>
       (shared (heap s ! h) = Pending \<longrightarrow> shared (heap s' ! h) = Ready (callable (heap s ! h) ()))
       \<and> (shared (heap s ! h) \<noteq> Pending \<longrightarrow> shared (heap s' ! h) = shared (heap s ! h))"
      by auto
  qed
qed

section \<open>Progress of a shutdown\<close>

lemma sum_work_left_update:
  assumes "i < length ws"
  shows "sum_list (map work_left (ws[i := w])) + work_left (ws ! i)
       = sum_list (map work_left ws) + work_left w"
  using assms
proof (induction ws arbitrary: i)
  case Nil
  then show ?case by simp
next
  case (Cons x xs)
  then show ?case by (cases i) auto
qed

text \<open>Inside \<^verbatim>\<open>shutdown\<close> there is always a worker or join step that changes the state,
  and it lowers the bound.\<close>

lemma shutdown_progress:
  assumes wf: "wf s" and j: "joining s = Some k"
  shows "\<exists>e s'. internal (e :: ('a, 'r) event) \<and> step e s = Some s' \<and> remaining s' < remaining s"
proof -
  from wf j have st: "stopping s" and kl: "k \<le> length (workers s)"
    and ex: "\<forall>i < k. workers s ! i = Exited"
    by (simp_all add: wf_def join_ok_def)
  from wf have wk: "workers_ok s" by (simp add: wf_def)
  show ?thesis
  proof (cases "k < length (workers s)")
    case False
    with kl have k: "k = length (workers s)" by simp
    let ?s' = "s\<lparr>workers := [], joining := None\<rparr>"
    have "step (Join :: ('a, 'r) event) s = Some ?s'" using j k by (simp add: shutdown_join_def)
    moreover have "remaining ?s' < remaining s" using j k by (simp add: remaining_def)
    ultimately show ?thesis by (intro exI[of _ Join] exI[of _ ?s']) simp
  next
    case True
    show ?thesis
    proof (cases "workers s ! k")
      case Exited
      let ?s' = "s\<lparr>joining := Some (Suc k)\<rparr>"
      have "step (Join :: ('a, 'r) event) s = Some ?s'"
        using j True Exited by (simp add: shutdown_join_def)
      moreover have "remaining ?s' < remaining s" using j True by (simp add: remaining_def)
      ultimately show ?thesis by (intro exI[of _ Join] exI[of _ ?s']) simp
    next
      case Waiting
      show ?thesis
      proof (cases "tasks s")
        case Nil
        let ?s' = "s\<lparr>workers := (workers s)[k := Exited]\<rparr>"
        have "step (Work k :: ('a, 'r) event) s = Some ?s'" using True Waiting Nil st
          by (simp add: workerLoop_def dequeue_or_wait_def wait_pred_def)
        moreover have "remaining ?s' < remaining s"
          using sum_work_left_update[OF True, of Exited] Waiting j
          by (simp add: remaining_def)
        ultimately show ?thesis by (intro exI[of _ "Work k"] exI[of _ ?s']) simp
      next
        case (Cons h q)
        let ?s' = "s\<lparr>tasks := q, activeWorkers := activeWorkers s + 1,
                     workers := (workers s)[k := Executing h]\<rparr>"
        have "step (Work k :: ('a, 'r) event) s = Some ?s'" using True Waiting Cons
          by (simp add: workerLoop_def dequeue_or_wait_def wait_pred_def)
        moreover have "remaining ?s' < remaining s"
          using sum_work_left_update[OF True, of "Executing h"] Waiting Cons j
          by (simp add: remaining_def)
        ultimately show ?thesis by (intro exI[of _ "Work k"] exI[of _ ?s']) simp
      qed
    next
      case (Executing h)
      with worker_at[OF wk True] have h: "h < length (heap s)" by simp
      let ?s' = "(run_task h s)\<lparr>workers := (workers s)[k := Completed h]\<rparr>"
      have keep: "tasks (run_task h s) = tasks s" "joining (run_task h s) = joining s"
        by (simp_all add: run_task_def split: prod.splits option.splits exn.splits)
      have "step (Work k :: ('a, 'r) event) s = Some ?s'" using True Executing h
        by (simp add: workerLoop_def)
      moreover have "remaining ?s' < remaining s"
        using sum_work_left_update[OF True, of "Completed h"] Executing keep j
        by (simp add: remaining_def)
      ultimately show ?thesis by (intro exI[of _ "Work k"] exI[of _ ?s']) simp
    next
      case (Completed h)
      let ?s' = "s\<lparr>activeWorkers := activeWorkers s - 1, heap := abandon h (heap s),
                  workers := (workers s)[k := Waiting]\<rparr>"
      have "step (Work k :: ('a, 'r) event) s = Some ?s'" using True Completed
        by (simp add: workerLoop_def)
      moreover have "remaining ?s' < remaining s"
        using sum_work_left_update[OF True, of Waiting] Completed j
        by (simp add: remaining_def)
      ultimately show ?thesis by (intro exI[of _ "Work k"] exI[of _ ?s']) simp
    qed
  qed
qed

text \<open>Hence a call of \<^verbatim>\<open>shutdown\<close> that has been entered can return: some schedule of
  worker and join steps, of at most \<open>remaining s\<close> steps, completes it.\<close>

lemma shutdown_can_return:
  assumes "wf s" "joining s \<noteq> None"
  shows "\<exists>(evs :: ('a, 'r) event list) s'. list_all internal evs \<and> length evs \<le> remaining s \<and>
     run evs s = Some s' \<and> joining s' = None"
  using assms
proof (induction "remaining s" arbitrary: s rule: less_induct)
  case less
  from less.prems obtain k where k: "joining s = Some k" by auto
  from shutdown_progress[OF less.prems(1) k, where 'a = 'a]
  obtain e :: "('a, 'r) event" and s1 where e: "internal e" and st: "step e s = Some s1"
    and lt: "remaining s1 < remaining s" by blast
  have wf1: "wf s1" using wf_step[OF less.prems(1) st] .
  show ?case
  proof (cases "joining s1")
    case None
    have "list_all internal [e] \<and> length [e] \<le> remaining s \<and> run [e] s = Some s1 \<and> joining s1 = None"
      using e st None lt by simp
    then show ?thesis by blast
  next
    case (Some k1)
    then have "joining s1 \<noteq> None" by simp
    from less.hyps[OF lt wf1 this]
    obtain es :: "('a, 'r) event list" and s' where es: "list_all internal es"
      "length es \<le> remaining s1" "run es s1 = Some s'" "joining s' = None" by blast
    have "list_all internal (e # es) \<and> length (e # es) \<le> remaining s \<and>
      run (e # es) s = Some s' \<and> joining s' = None"
      using e st es lt by simp
    then show ?thesis by blast
  qed
qed

section \<open>Pools never shut down, and a worker emptying the queue\<close>

lemma undiscarded_step:
  assumes wf: "wf s" and u: "undiscarded s" and st: "step e s = Some s'"
    and e: "e \<noteq> Shutdown False"
  shows "undiscarded s'"
proof (cases e)
  case (Submit f a)
  with st have s': "s' = s\<lparr>heap := heap s @ [\<lparr>callable = (\<lambda>_. f a), shared = Pending\<rparr>],
         tasks := tasks s @ [length (heap s)]\<rparr>"
    by (auto simp: submit_def Let_def)
  show ?thesis
    unfolding undiscarded_def
  proof (intro allI impI)
    fix h assume h: "h < length (heap s')"
    show "shared (heap s' ! h) = Pending \<or>
      shared (heap s' ! h) = Ready (callable (heap s' ! h) ())"
    proof (cases "h < length (heap s)")
      case True
      with u show ?thesis unfolding s' undiscarded_def by (simp add: nth_append)
    next
      case False
      with h have "h = length (heap s)" unfolding s' by simp
      then show ?thesis unfolding s' by simp
    qed
  qed
next
  case other: (IncreaseSize n)
  from follows_step[OF wf st e] have f: "follows s s'" .
  from other st have "length (heap s') = length (heap s)" by (auto split: if_splits)
  with f u show ?thesis unfolding undiscarded_def follows_def by (metis)
next
  case other: (Shutdown b)
  from follows_step[OF wf st e] have f: "follows s s'" .
  from other st e have "length (heap s') = length (heap s)"
    by (cases b) (auto simp: shutdown_enter_def split: if_splits)
  with f u show ?thesis unfolding undiscarded_def follows_def by (metis)
next
  case other: Join
  from follows_step[OF wf st e] have f: "follows s s'" .
  from other st have "length (heap s') = length (heap s)"
    using internal_heap_length[of "[e]" s s'] by simp
  with f u show ?thesis unfolding undiscarded_def follows_def by (metis)
next
  case other: (Work i)
  from follows_step[OF wf st e] have f: "follows s s'" .
  from other st have "length (heap s') = length (heap s)"
    using internal_heap_length[of "[e]" s s'] by simp
  with f u show ?thesis unfolding undiscarded_def follows_def by (metis)
qed

lemma undiscarded_run:
  assumes "wf s" "undiscarded s" "run evs s = Some s'" "Shutdown False \<notin> set evs"
  shows "undiscarded s'"
  using assms
proof (induction evs arbitrary: s)
  case Nil
  then show ?case by simp
next
  case (Cons e es)
  then obtain s1 where st: "step e s = Some s1" and rest: "run es s1 = Some s'"
    by (auto split: option.splits)
  from Cons.prems have ne: "e \<noteq> Shutdown False" "Shutdown False \<notin> set es" by auto
  from Cons.IH[OF wf_step[OF Cons.prems(1) st] undiscarded_step[OF Cons.prems(1,2) st ne(1)]
      rest ne(2)]
  show ?case .
qed

lemma undiscarded_ctor: "undiscarded (ThreadPool_ctor n)"
  by (simp add: undiscarded_def ThreadPool_ctor_def)

text \<open>A pool on which \<^verbatim>\<open>shutdown\<close> was never called is not stopping and has a worker.\<close>

lemma never_shut_down_step:
  assumes "step e s = Some s'" "\<forall>b. e \<noteq> Shutdown b"
    "\<not> stopping s" "joining s = None" "workers s \<noteq> []"
  shows "\<not> stopping s' \<and> joining s' = None \<and> workers s' \<noteq> []"
proof (cases e)
  case (Submit f a)
  with assms show ?thesis by (auto simp: submit_def Let_def)
next
  case (IncreaseSize n)
  with assms show ?thesis by (auto simp: workers_increaseSize split: if_splits)
next
  case (Shutdown b)
  with assms(2) show ?thesis by blast
next
  case Join
  with assms show ?thesis by (simp add: shutdown_join_def)
next
  case (Work i)
  with assms have "workerLoop i s = Some s'" by (auto split: if_splits)
  then show ?thesis using assms(3,4,5)
    by (cases rule: workerLoop_cases)
       (auto simp: run_task_def split: prod.splits option.splits exn.splits)
qed

lemma never_shut_down_run:
  assumes "run evs s = Some s'" "\<forall>b. Shutdown b \<notin> set evs"
    "\<not> stopping s" "joining s = None" "workers s \<noteq> []"
  shows "\<not> stopping s' \<and> joining s' = None \<and> workers s' \<noteq> []"
  using assms
proof (induction evs arbitrary: s)
  case Nil
  then show ?case by simp
next
  case (Cons e es)
  then obtain s1 where st: "step e s = Some s1" and rest: "run es s1 = Some s'"
    by (auto split: option.splits)
  from Cons.prems(2) have ne: "\<forall>b. e \<noteq> Shutdown b" "\<forall>b. Shutdown b \<notin> set es" by auto
  from never_shut_down_step[OF st ne(1) Cons.prems(3,4,5)]
  have "\<not> stopping s1" "joining s1 = None" "workers s1 \<noteq> []" by simp_all
  from Cons.IH[OF rest ne(2) this] show ?case .
qed

lemma never_shut_down_ctor:
  assumes "run evs (ThreadPool_ctor n) = Some s" "\<forall>b. Shutdown b \<notin> set evs"
  shows "\<not> stopping s" "joining s = None" "\<exists>i < length (workers s). workers s ! i \<noteq> Exited"
proof -
  have "\<not> stopping (ThreadPool_ctor n)" "joining (ThreadPool_ctor n) = None"
    "workers (ThreadPool_ctor n) \<noteq> []"
    by (simp_all add: ThreadPool_ctor_def workers_increaseSize)
  from never_shut_down_run[OF assms this]
  have a: "\<not> stopping s" and b: "joining s = None" and c: "workers s \<noteq> []" by simp_all
  show "\<not> stopping s" "joining s = None" by fact+
  have "wf s" using wf_run[OF wf_ctor assms(1)] .
  with a have "\<forall>i < length (workers s). workers s ! i \<noteq> Exited" by (simp add: wf_def exits_ok_def)
  moreover from c have "0 < length (workers s)" by simp
  ultimately show "\<exists>i < length (workers s). workers s ! i \<noteq> Exited" by blast
qed

text \<open>A single waiting worker can empty the queue: three steps per task.\<close>

lemma run_append:
  "run (xs @ ys) s = (case run xs s of None \<Rightarrow> None | Some s1 \<Rightarrow> run ys s1)"
  by (induction xs arbitrary: s) (simp_all split: option.splits)

lemma replicate_3_Suc: "replicate (3 * Suc n) x = [x, x, x] @ replicate (3 * n) x"
  by (simp add: numeral_3_eq_3)

lemma one_task_by_worker:
  assumes wf: "wf s" and i: "i < length (workers s)" and w: "workers s ! i = Waiting"
    and t: "tasks s = h # q"
  shows "\<exists>s'. run [Work i :: ('a, 'r) event, Work i, Work i] (s :: 'r ThreadPool) = Some s' \<and> tasks s' = q \<and>
     workers s' = workers s \<and> stopping s' = stopping s \<and> joining s' = joining s \<and>
     cerr s' = cerr s \<and> length (heap s') = length (heap s) \<and>
     shared (heap s' ! h) = Ready (callable (heap s ! h) ()) \<and>
     (\<forall>k. k \<noteq> h \<longrightarrow> heap s' ! k = heap s ! k)"
proof -
  from wf t have h: "h < length (heap s)" "shared (heap s ! h) = Pending"
    by (auto simp: wf_def queue_ok_def)
  let ?s1 = "s\<lparr>tasks := q, activeWorkers := activeWorkers s + 1,
                workers := (workers s)[i := Executing h]\<rparr>"
  let ?hp = "(heap s)[h := (heap s ! h)\<lparr>shared := Ready (callable (heap s ! h) ())\<rparr>]"
  let ?s2 = "?s1\<lparr>heap := ?hp, workers := (workers s)[i := Completed h]\<rparr>"
  let ?s3 = "?s2\<lparr>activeWorkers := activeWorkers s + 1 - 1, heap := ?hp,
                workers := (workers s)[i := Waiting]\<rparr>"
  have 1: "step (Work i :: ('a, 'r) event) s = Some ?s1" using i w t
    by (simp add: workerLoop_def dequeue_or_wait_def wait_pred_def)
  have 2: "step (Work i :: ('a, 'r) event) ?s1 = Some ?s2" using i h
    by (simp add: workerLoop_def run_task_def invoke_def)
  have ab: "abandon h ?hp = ?hp" using h by (simp add: abandon_def)
  have 3: "step (Work i :: ('a, 'r) event) ?s2 = Some ?s3" using i ab
    by (simp add: workerLoop_def)
  have id: "(workers s)[i := Waiting] = workers s" using w by (metis list_update_id)
  have "run [Work i :: ('a, 'r) event, Work i, Work i] s = Some ?s3" using 1 2 3 by simp
  moreover have "tasks ?s3 = q" "workers ?s3 = workers s" "stopping ?s3 = stopping s"
    "joining ?s3 = joining s" "cerr ?s3 = cerr s" "length (heap ?s3) = length (heap s)"
    "shared (heap ?s3 ! h) = Ready (callable (heap s ! h) ())"
    "\<forall>k. k \<noteq> h \<longrightarrow> heap ?s3 ! k = heap s ! k"
    using id h by simp_all
  ultimately show ?thesis by blast
qed

lemma queue_by_worker:
  assumes "wf s" "i < length (workers s)" "workers s ! i = Waiting"
  shows "\<exists>s'. run (replicate (3 * length (tasks s)) (Work i :: ('a, 'r) event)) (s :: 'r ThreadPool) = Some s' \<and>
     tasks s' = [] \<and>
     workers s' = workers s \<and> stopping s' = stopping s \<and> joining s' = joining s \<and>
     cerr s' = cerr s \<and> length (heap s') = length (heap s) \<and>
     (\<forall>h \<in> set (tasks s). shared (heap s' ! h) = Ready (callable (heap s ! h) ()))"
  using assms
proof (induction "tasks s" arbitrary: s)
  case Nil
  then show ?case by simp
next
  case (Cons h q)
  from Cons.hyps(2) have t: "tasks s = h # q" by simp
  from one_task_by_worker[OF Cons.prems t, where 'a = 'a]
  obtain s1 where r1: "run [Work i :: ('a, 'r) event, Work i, Work i] s = Some s1"
    and s1: "tasks s1 = q" "workers s1 = workers s" "stopping s1 = stopping s"
      "joining s1 = joining s" "cerr s1 = cerr s" "length (heap s1) = length (heap s)"
      "shared (heap s1 ! h) = Ready (callable (heap s ! h) ())"
      "\<forall>k. k \<noteq> h \<longrightarrow> heap s1 ! k = heap s ! k" by blast
  have wf1: "wf s1" using wf_run[OF Cons.prems(1) r1] .
  have i1: "i < length (workers s1)" "workers s1 ! i = Waiting" using s1 Cons.prems by simp_all
  from Cons.hyps(1)[OF s1(1)[symmetric] wf1 i1]
  obtain s' where r2: "run (replicate (3 * length (tasks s1)) (Work i :: ('a, 'r) event)) s1 = Some s'"
    and s': "tasks s' = []" "workers s' = workers s1" "stopping s' = stopping s1"
      "joining s' = joining s1" "cerr s' = cerr s1" "length (heap s') = length (heap s1)"
      "\<forall>k \<in> set (tasks s1). shared (heap s' ! k) = Ready (callable (heap s1 ! k) ())" by blast
  have fb: "follows_or_breaks s1 s'" using follows_or_breaks_run[OF r2] .
  from Cons.prems(1) t have hl: "h < length (heap s)" "h \<notin> set q"
    by (auto simp: wf_def queue_ok_def)
  have hdone: "shared (heap s' ! h) = Ready (callable (heap s ! h) ())"
    using fb s1(6,7) hl(1) by (auto simp: follows_or_breaks_def)
  have rest: "\<forall>k \<in> set q. shared (heap s' ! k) = Ready (callable (heap s ! k) ())"
    using s'(7) s1(1,8) hl(2) by auto
  have "length (tasks s) = Suc (length q)" using t by simp
  then have "run (replicate (3 * length (tasks s)) (Work i :: ('a, 'r) event)) s = Some s'"
    using r1 r2 s1(1) by (simp only: replicate_3_Suc run_append option.case)
  with s' s1 hdone rest t show ?case by auto
qed

text \<open>The definitions to unfold when an execution is evaluated on a concrete schedule.\<close>

lemmas exec_defs = ThreadPool_ctor_def increaseSize_def submit_def Let_def workerLoop_def
  dequeue_or_wait_def wait_pred_def run_task_def invoke_def abandon_def shutdown_enter_def
  shutdown_join_def future_get_def getQueuedTaskCount_def

section \<open>Futures and the calls they belong to\<close>







section \<open>Resolution of futures\<close>


text \<open>A call of \<^verbatim>\<open>shutdown\<close> that returns has joined every worker it had not joined
  yet, once each, and then cleared the vector.\<close>

lemma joins_counted:
  assumes "wf s" "joining s = Some k" "run evs s = Some s'" "list_all internal evs"
    "joining s' = None"
  shows "length (filter (\<lambda>e. e = Join) evs) = Suc (length (workers s)) - k"
  using assms
proof (induction evs arbitrary: s k)
  case Nil
  then show ?case by simp
next
  case (Cons e es)
  then obtain s1 where st: "step e s = Some s1" and rest: "run es s1 = Some s'"
    by (auto split: option.splits)
  from Cons.prems have e: "internal e" and es: "list_all internal es" by simp_all
  have wf1: "wf s1" using wf_step[OF Cons.prems(1) st] .
  from Cons.prems(1,2) have kl: "k \<le> length (workers s)" by (simp add: wf_def join_ok_def)
  from e show ?case
  proof (cases rule: internal_cases)
    case 1
    with st have "shutdown_join s = Some s1" by simp
    then show ?thesis
    proof (cases rule: shutdown_join_cases)
      case (advance k')
      with Cons.prems(2) have k': "k' = k" by simp
      from advance k' have j1: "joining s1 = Some (Suc k)" "workers s1 = workers s" by simp_all
      from Cons.IH[OF wf1 j1(1) rest es Cons.prems(5)] j1(2) advance(2) k' 1
      show ?thesis by simp
    next
      case (clear k')
      with Cons.prems(2) have k': "k' = k" by simp
      from clear have r: "joining s1 = None" "workers s1 = []" by simp_all
      from run_internal_after_return[OF rest es r] have "es = []" .
      with clear(2) k' kl 1 show ?thesis by simp
    qed
  next
    case (2 i)
    with st have "workerLoop i s = Some s1" by (auto split: if_splits)
    then have same: "joining s1 = joining s \<and> length (workers s1) = length (workers s)"
      by (cases rule: workerLoop_cases)
         (auto simp: run_task_def split: prod.splits option.splits exn.splits)
    with Cons.prems(2) have j1: "joining s1 = Some k" by simp
    from Cons.IH[OF wf1 j1 rest es Cons.prems(5)] same 2 show ?thesis by simp
  qed
qed

text \<open>Drain shutdown from a state with a worker still in its loop: what holds when the
  call has returned.\<close>

lemma drain_shutdown_facts:
  assumes wf: "wf s"
    and live: "\<exists>i < length (workers s). workers s ! i \<noteq> Exited"
    and call: "run (Shutdown True # evs) s = Some s'"
    and int: "list_all internal evs"
    and ret: "joining s' = None"
  shows "tasks s' = []" "workers s' = []"
    "length (filter (\<lambda>e. e = Join) evs) = Suc (length (workers s))"
    "length (heap s') = length (heap s)"
    "\<forall>h < length (heap s). future_get h s' \<noteq> None \<and>
          (future_get h s = None \<longrightarrow> future_get h s' = Some (callable (heap s ! h) ()))"
    "undiscarded s \<Longrightarrow> \<forall>h < length (heap s). future_get h s' = Some (callable (heap s ! h) ())"
    "cerr s' = []"
proof -
  let ?s1 = "shutdown_enter True s"
  from call have j: "joining s = None" and r: "run evs ?s1 = Some s'"
    by (auto split: if_splits)
  note d = drain_returns_all_done[OF wf j live r int ret]
  show "tasks s' = []" "workers s' = []" "length (heap s') = length (heap s)" by (rule d)+
  have wf1: "wf ?s1" using wf j by (rule wf_shutdown_enter)
  have j1: "joining ?s1 = Some 0" "workers ?s1 = workers s" by (simp_all add: shutdown_enter_def)
  from joins_counted[OF wf1 j1(1) r int ret] j1(2)
  show "length (filter (\<lambda>e. e = Join) evs) = Suc (length (workers s))" by simp
  show "\<forall>h < length (heap s). future_get h s' \<noteq> None \<and>
          (future_get h s = None \<longrightarrow> future_get h s' = Some (callable (heap s ! h) ()))"
    using d(4) by (auto simp: future_get_def split: shared_state.splits)
  show "\<forall>h < length (heap s). future_get h s' = Some (callable (heap s ! h) ())"
    if u: "undiscarded s"
  proof (intro allI impI)
    fix h assume h: "h < length (heap s)"
    with u have "shared (heap s ! h) = Pending \<or>
        shared (heap s ! h) = Ready (callable (heap s ! h) ())"
      by (simp add: undiscarded_def)
    with d(4) h show "future_get h s' = Some (callable (heap s ! h) ())"
      by (auto simp: future_get_def)
  qed
  show "cerr s' = []" using wf_run[OF wf1 r] by (simp add: wf_def)
qed

text \<open>A drain shutdown that is entered can return.\<close>

lemma drain_shutdown_can_return:
  assumes "wf s" "joining s = None"
  shows "\<exists>(es :: ('a, 'r) event list) t. list_all internal es \<and>
     run (Shutdown True # es) s = Some t \<and> joining t = None"
proof -
  let ?s1 = "shutdown_enter True s"
  have wf1: "wf ?s1" using assms by (rule wf_shutdown_enter)
  have j1: "joining ?s1 \<noteq> None" by (simp add: shutdown_enter_def)
  from shutdown_can_return[OF wf1 j1, where 'a = 'a]
  obtain es :: "('a, 'r) event list" and t where "list_all internal es" "run es ?s1 = Some t"
    "joining t = None" by blast
  then show ?thesis using assms(2) by auto
qed



section \<open>Progress of the workers alone\<close>








section \<open>Construction and growth\<close>

text \<open>
  Claim C9. For every requested count \<open>n\<close> the constructor leaves exactly \<open>max n 1\<close>
  worker threads, all started and at the top of their loop; a request of zero is coerced to
  one. The constructor is a total function of \<open>n\<close>: it has no branch that rejects a
  request, and it leaves the queue empty and the pool not stopping.
\<close>

theorem ctor_starts_max_n_1_workers:
  "workers (ThreadPool_ctor n) = replicate (max n 1) Waiting
   \<and> length (workers (ThreadPool_ctor n)) = max n 1
   \<and> tasks (ThreadPool_ctor n) = []
   \<and> stopping (ThreadPool_ctor n) = False
   \<and> joining (ThreadPool_ctor n) = None
   \<and> cerr (ThreadPool_ctor n) = []
   \<and> getQueuedTaskCount (ThreadPool_ctor n) = 0
   \<and> getActiveWorkerCount (ThreadPool_ctor n) = 0"
  by (simp add: ThreadPool_ctor_def workers_increaseSize max_def getQueuedTaskCount_def
      getActiveWorkerCount_def)

text \<open>
  Claim C8. \<^verbatim>\<open>increaseSize t\<close> leaves the pool as it is when \<open>t\<close> is not greater than
  the current worker count \<open>c\<close>; otherwise it appends exactly \<open>t - c\<close> new workers behind
  the existing ones, which keep their places and states. So growing to 4 and then to 2 leaves
  4 workers and growing to 4 and then to 10 leaves 10 (from a pool of at most 4), and the only
  step of any execution that lowers the worker count is the clearing of the vector at the end
  of \<^verbatim>\<open>shutdown\<close>.
\<close>

theorem increaseSize_grows_only:
  "(t \<le> length (workers s) \<longrightarrow> increaseSize t s = s)
   \<and> (length (workers s) < t \<longrightarrow>
        increaseSize t s = s\<lparr>workers := workers s @ replicate (t - length (workers s)) Waiting\<rparr>)
   \<and> take (length (workers s)) (workers (increaseSize t s)) = workers s
   \<and> length (workers (increaseSize t s)) = max (length (workers s)) t
   \<and> (length (workers s) \<le> 4 \<longrightarrow>
        length (workers (increaseSize 2 (increaseSize 4 s))) = 4
        \<and> length (workers (increaseSize 10 (increaseSize 4 s))) = 10)
   \<and> (\<forall>e s'. step e s = Some s' \<longrightarrow>
        length (workers s) \<le> length (workers s')
        \<or> (e = (Join :: ('a, 'r) event) \<and> joining s' = None \<and> workers s' = []))"
proof -
  have shrink: "length (workers s) \<le> length (workers s')
        \<or> (e = Join \<and> joining s' = None \<and> workers s' = [])"
    if "step e s = Some s'" for e :: "('a, 'r) event" and s'
  proof (cases e)
    case (Submit f a)
    with that show ?thesis by (auto simp: submit_def Let_def)
  next
    case (IncreaseSize n)
    with that show ?thesis by (auto simp: workers_increaseSize split: if_splits)
  next
    case (Shutdown b)
    with that show ?thesis by (auto simp: shutdown_enter_def split: if_splits)
  next
    case Join
    with that have "shutdown_join s = Some s'" by simp
    then show ?thesis using Join by (cases rule: shutdown_join_cases) auto
  next
    case (Work i)
    with that have "workerLoop i s = Some s'" by (auto split: if_splits)
    then show ?thesis by (cases rule: workerLoop_cases) (auto simp: run_task_def split: prod.splits option.splits exn.splits)
  qed
  have "increaseSize t s = s\<lparr>workers := workers s @ replicate (t - length (workers s)) Waiting\<rparr>"
    if "length (workers s) < t"
    using that by (simp add: increaseSize_def emplace_workers_eq)
  moreover have "t \<le> length (workers s) \<longrightarrow> increaseSize t s = s"
    by (simp add: increaseSize_def)
  moreover have "length (workers s) \<le> 4 \<longrightarrow>
        length (workers (increaseSize 2 (increaseSize 4 s))) = 4
        \<and> length (workers (increaseSize 10 (increaseSize 4 s))) = 10"
    by (simp add: workers_increaseSize)
  ultimately show ?thesis using shrink
    by (simp add: workers_increaseSize max_def)
qed

theorem increaseSize_grows_only_witness:
  "length (workers (increaseSize 2 (increaseSize 4 (ThreadPool_ctor 1 :: nat ThreadPool)))) = 4
   \<and> length (workers (increaseSize 10 (increaseSize 4 (ThreadPool_ctor 1 :: nat ThreadPool)))) = 10
   \<and> increaseSize 1 (ThreadPool_ctor 3 :: nat ThreadPool) = ThreadPool_ctor 3
   \<and> workers (increaseSize 3 (ThreadPool_ctor 1 :: nat ThreadPool)) = [Waiting, Waiting, Waiting]
   \<and> length (workers (ThreadPool_ctor 3 :: nat ThreadPool))
       \<le> length (workers (increaseSize 5 (ThreadPool_ctor 3 :: nat ThreadPool)))"
proof -
  let ?p1 = "ThreadPool_ctor 1 :: nat ThreadPool"
  let ?p3 = "ThreadPool_ctor 3 :: nat ThreadPool"
  have w1: "workers ?p1 = [Waiting]" and w3: "workers ?p3 = [Waiting, Waiting, Waiting]"
    by (simp_all add: workers_ctor numeral_3_eq_3)
  have j: "joining ?p3 = None" by (simp add: ThreadPool_ctor_def)
  have st: "step (IncreaseSize 5 :: (nat, nat) event) ?p3 = Some (increaseSize 5 ?p3)"
    using j by simp
  from increaseSize_grows_only[of 2 ?p1, where 'a = nat] w1
  have a: "length (workers (increaseSize 2 (increaseSize 4 ?p1))) = 4
     \<and> length (workers (increaseSize 10 (increaseSize 4 ?p1))) = 10" by simp
  from increaseSize_grows_only[of 1 ?p3, where 'a = nat] w3
  have b: "increaseSize 1 ?p3 = ?p3" by simp
  from increaseSize_grows_only[of 3 ?p1, where 'a = nat] w1
  have c: "workers (increaseSize 3 ?p1) = [Waiting, Waiting, Waiting]"
    by (simp add: numeral_2_eq_2)
  from increaseSize_grows_only[of 5 ?p3, where 'a = nat] st
  have d: "length (workers ?p3) \<le> length (workers (increaseSize 5 ?p3))" by blast
  from a b c d show ?thesis by blast
qed

section \<open>The dequeue step of a worker\<close>

text \<open>
  Claim C6. One evaluation of lines 71-80 yields the stop signal exactly when the pool is
  stopping and the queue is empty. Whenever the wait predicate holds otherwise, the queue is
  not empty and the front task is removed and handed to the worker. When the predicate is
  false (a spurious wake-up) the worker goes on waiting and the pool is unchanged: it neither
  exits nor takes anything. The \<^verbatim>\<open>continue\<close> branch of line 79 is never taken. The same
  holds for the step of a waiting worker thread.
\<close>

theorem dequeue_or_wait_stop_iff:
  "(fst (dequeue_or_wait s) = StopSignal \<longleftrightarrow> stopping s \<and> tasks s = [])
   \<and> (wait_pred s \<and> \<not> (stopping s \<and> tasks s = []) \<longrightarrow>
        tasks s \<noteq> [] \<and>
        dequeue_or_wait s =
          (Task (hd (tasks s)), s\<lparr>tasks := tl (tasks s), activeWorkers := activeWorkers s + 1\<rparr>))
   \<and> (\<not> wait_pred s \<longrightarrow> dequeue_or_wait s = (Blocked, s))
   \<and> fst (dequeue_or_wait s) \<noteq> Continue
   \<and> (i < length (workers s) \<and> workers s ! i = Waiting \<longrightarrow>
        (\<exists>s'. step (Work i :: ('a, 'r) event) s = Some s'
          \<and> (workers s' ! i = Exited \<longleftrightarrow> stopping s \<and> tasks s = [])
          \<and> (\<not> wait_pred s \<longrightarrow> s' = s)
          \<and> (\<forall>h. workers s' ! i = Executing h \<longrightarrow>
                tasks s \<noteq> [] \<and> h = hd (tasks s) \<and> tasks s' = tl (tasks s))))"
proof -
  have a: "fst (dequeue_or_wait s) = StopSignal \<longleftrightarrow> stopping s \<and> tasks s = []"
    by (auto simp: dequeue_or_wait_def wait_pred_def split: list.splits)
  have b: "wait_pred s \<and> \<not> (stopping s \<and> tasks s = []) \<longrightarrow>
        tasks s \<noteq> [] \<and>
        dequeue_or_wait s =
          (Task (hd (tasks s)), s\<lparr>tasks := tl (tasks s), activeWorkers := activeWorkers s + 1\<rparr>)"
    by (auto simp: dequeue_or_wait_def wait_pred_def split: list.splits)
  have c: "\<not> wait_pred s \<longrightarrow> dequeue_or_wait s = (Blocked, s)"
    by (simp add: dequeue_or_wait_def)
  have d: "fst (dequeue_or_wait s) \<noteq> Continue"
    by (auto simp: dequeue_or_wait_def wait_pred_def split: list.splits)
  have e: "\<exists>s'. step (Work i :: ('a, 'r) event) s = Some s'
          \<and> (workers s' ! i = Exited \<longleftrightarrow> stopping s \<and> tasks s = [])
          \<and> (\<not> wait_pred s \<longrightarrow> s' = s)
          \<and> (\<forall>h. workers s' ! i = Executing h \<longrightarrow>
                tasks s \<noteq> [] \<and> h = hd (tasks s) \<and> tasks s' = tl (tasks s))"
    if i: "i < length (workers s)" and w: "workers s ! i = Waiting"
  proof -
    have id: "(workers s)[i := Waiting] = workers s" using w by (metis list_update_id)
    show ?thesis
    proof (cases "tasks s")
      case Nil
      then show ?thesis using i w id
        by (cases "stopping s") (simp_all add: workerLoop_def dequeue_or_wait_def wait_pred_def)
    next
      case (Cons h q)
      then show ?thesis using i w
        by (simp add: workerLoop_def dequeue_or_wait_def wait_pred_def)
    qed
  qed
  from a b c d e show ?thesis by blast
qed

theorem dequeue_or_wait_stop_iff_witness:
  "dequeue_or_wait (ThreadPool_ctor 1 :: nat ThreadPool) = (Blocked, ThreadPool_ctor 1)
   \<and> step (Work 0 :: (nat, nat) event) (ThreadPool_ctor 1) = Some (ThreadPool_ctor 1)
   \<and> fst (dequeue_or_wait (shutdown_enter True (ThreadPool_ctor 1 :: nat ThreadPool))) = StopSignal
   \<and> fst (dequeue_or_wait (snd (submit (\<lambda>i. Inr (i * i)) (3 :: nat) (ThreadPool_ctor 1 :: nat ThreadPool))))
       = Task 0
   \<and> fst (dequeue_or_wait (shutdown_enter True
         (snd (submit (\<lambda>i. Inr (i * i)) (3 :: nat) (ThreadPool_ctor 1 :: nat ThreadPool))))) = Task 0"
proof -
  let ?p = "ThreadPool_ctor 1 :: nat ThreadPool"
  let ?q = "snd (submit (\<lambda>i. Inr (i * i)) (3 :: nat) ?p)"
  have p: "\<not> wait_pred ?p" "0 < length (workers ?p)" "workers ?p ! 0 = Waiting"
    by (simp_all add: wait_pred_def ThreadPool_ctor_def increaseSize_def)
  have sp: "stopping (shutdown_enter True ?p)" "tasks (shutdown_enter True ?p) = []"
    by (simp_all add: shutdown_enter_def ThreadPool_ctor_def increaseSize_def)
  have q: "wait_pred ?q" "\<not> stopping ?q" "tasks ?q = [0]"
    by (simp_all add: wait_pred_def submit_def ThreadPool_ctor_def increaseSize_def)
  have sq: "wait_pred (shutdown_enter True ?q)" "tasks (shutdown_enter True ?q) = [0]"
    by (simp_all add: wait_pred_def shutdown_enter_def submit_def ThreadPool_ctor_def
        increaseSize_def)
  from dequeue_or_wait_stop_iff[of ?p 0, where 'a = nat] p
  have a: "dequeue_or_wait ?p = (Blocked, ?p)"
    and b: "step (Work 0 :: (nat, nat) event) ?p = Some ?p" by auto
  from dequeue_or_wait_stop_iff[of "shutdown_enter True ?p" 0, where 'a = nat] sp
  have c: "fst (dequeue_or_wait (shutdown_enter True ?p)) = StopSignal" by simp
  from dequeue_or_wait_stop_iff[of ?q 0, where 'a = nat] q
  have d: "fst (dequeue_or_wait ?q) = Task 0" by simp
  from dequeue_or_wait_stop_iff[of "shutdown_enter True ?q" 0, where 'a = nat] sq
  have e: "fst (dequeue_or_wait (shutdown_enter True ?q)) = Task 0" by simp
  from a b c d e show ?thesis by blast
qed

section \<open>Order of execution\<close>

text \<open>
  Claim C5. The queue is first-in first-out: \<^verbatim>\<open>submit\<close> appends at the back, a worker
  removes the front. In every execution that discards nothing, the tasks handed to workers,
  in the order of their removal, followed by the tasks still queued, are the tasks queued
  at the start followed by the submitted ones in the order of submission. So the order of
  removal is a prefix of the order of submission, and equal to it once the queue is empty
  again; with one worker this is the order in which the tasks are started.
\<close>

theorem fifo_order:
  assumes "run evs s = Some s'" and "Shutdown False \<notin> set evs"
  shows "tasks (snd (submit f a s)) = tasks s @ [fst (submit f a s)]
    \<and> (\<forall>i h. received_by (Work i :: ('a, 'r) event) s = [(i, h)] \<longrightarrow>
          tasks s \<noteq> [] \<and> h = hd (tasks s) \<and>
          (\<exists>s1. step (Work i :: ('a, 'r) event) s = Some s1 \<and> tasks s1 = tl (tasks s)))
    \<and> tasks s @ submitted evs s = map snd (received evs s) @ tasks s'
    \<and> prefix (map snd (received evs s)) (tasks s @ submitted evs s)
    \<and> (tasks s = [] \<and> tasks s' = [] \<longrightarrow> map snd (received evs s) = submitted evs s)"
proof -
  have a: "tasks (snd (submit f a s)) = tasks s @ [fst (submit f a s)]"
    by (simp add: submit_def Let_def)
  have b: "tasks s \<noteq> [] \<and> h = hd (tasks s) \<and>
          (\<exists>s1. step (Work i :: ('a, 'r) event) s = Some s1 \<and> tasks s1 = tl (tasks s))"
    if r: "received_by (Work i :: ('a, 'r) event) s = [(i, h)]" for i h
  proof -
    from received_by_cases[of "Work i :: ('a, 'r) event" s] r
    obtain q where i: "i < length (workers s)" "workers s ! i = Waiting" and t: "tasks s = h # q"
      by auto
    then show ?thesis by (simp add: workerLoop_def dequeue_or_wait_def wait_pred_def)
  qed
  have c: "tasks s @ submitted evs s = map snd (received evs s) @ tasks s'"
    using assms by (rule fifo_run)
  then have d: "prefix (map snd (received evs s)) (tasks s @ submitted evs s)"
    by (simp add: prefix_def)
  from c have e: "tasks s = [] \<and> tasks s' = [] \<longrightarrow> map snd (received evs s) = submitted evs s"
    by auto
  from a b c d e show ?thesis by blast
qed

theorem fifo_order_witness:
  "map snd (received
      [Submit (\<lambda>i. Inr (i * i)) 5, Submit (\<lambda>i. Inr (i * i)) 6, Submit (\<lambda>i. Inr (i * i)) 7,
       Work 0, Work 0, Work 0, Work 0, Work 0, Work 0, Work 0, Work 0, Work 0]
      (ThreadPool_ctor 1 :: nat ThreadPool))
   = submitted
      [Submit (\<lambda>i. Inr (i * i)) 5, Submit (\<lambda>i. Inr (i * i)) 6, Submit (\<lambda>i. Inr (i * i)) (7 :: nat),
       Work 0, Work 0, Work 0, Work 0, Work 0, Work 0, Work 0, Work 0, Work 0]
      (ThreadPool_ctor 1 :: nat ThreadPool)
   \<and> submitted
      [Submit (\<lambda>i. Inr (i * i)) 5, Submit (\<lambda>i. Inr (i * i)) 6, Submit (\<lambda>i. Inr (i * i)) (7 :: nat),
       Work 0, Work 0, Work 0, Work 0, Work 0, Work 0, Work 0, Work 0, Work 0]
      (ThreadPool_ctor 1 :: nat ThreadPool) = [0, 1, 2]"
proof -
  let ?f = "\<lambda>i :: nat. (Inr (i * i) :: nat outcome)"
  let ?evs = "[Submit ?f 5, Submit ?f 6, Submit ?f 7,
       Work 0, Work 0, Work 0, Work 0, Work 0, Work 0, Work 0, Work 0, Work 0]"
  let ?p = "ThreadPool_ctor 1 :: nat ThreadPool"
  let ?hp = "[\<lparr>callable = \<lambda>_. Inr 25, shared = Ready (Inr 25)\<rparr>,
              \<lparr>callable = \<lambda>_. Inr 36, shared = Ready (Inr 36)\<rparr>,
              \<lparr>callable = \<lambda>_. Inr 49, shared = Ready (Inr 49)\<rparr>] :: nat packaged_task list"
  let ?s' = "\<lparr>workers = [Waiting], tasks = [], stopping = False, activeWorkers = 0,
      heap = ?hp, cerr = [], joining = None\<rparr>"
  have r: "run ?evs ?p = Some ?s'" by (simp add: exec_defs)
  have n: "Shutdown False \<notin> set ?evs" by simp
  have t: "tasks ?p = []" "tasks ?s' = []" by (simp_all add: exec_defs)
  have s: "submitted ?evs ?p = [0, 1, 2]" by (simp add: exec_defs)
  from fifo_order[OF r n, of ?f 0] t
  have "map snd (received ?evs ?p) = submitted ?evs ?p" by blast
  with s show ?thesis by simp
qed

text \<open>
  Claim C7. The check of the queue and the removal of its front are one step under the
  mutex, and in every execution from the constructor no task is handed out twice, to the
  same worker or to two: the tasks received are pairwise distinct. At every moment no two
  workers hold the same task, and a task held by a worker is not in the queue.
\<close>

theorem task_received_at_most_once:
  assumes "run evs (ThreadPool_ctor n) = Some s"
  shows "distinct (map snd (received evs (ThreadPool_ctor n :: 'r ThreadPool)))
    \<and> (\<forall>i j h. i < length (workers s) \<and> j < length (workers s) \<and>
          holding (workers s ! i) = Some h \<and> holding (workers s ! j) = Some h \<longrightarrow> i = j)
    \<and> (\<forall>i h. i < length (workers s) \<and> holding (workers s ! i) = Some h \<longrightarrow> h \<notin> set (tasks s))
    \<and> distinct (tasks s)"
proof -
  have wf: "wf s" using wf_run[OF wf_ctor assms] .
  then have ex: "exclusive s" and q: "queue_ok s" by (simp_all add: wf_def)
  have a: "distinct (map snd (received evs (ThreadPool_ctor n :: 'r ThreadPool)))"
    using received_once[OF wf_ctor assms] by simp
  have b: "i = j" if "i < length (workers s)" "j < length (workers s)"
    "holding (workers s ! i) = Some h" "holding (workers s ! j) = Some h" for i j h
    using holder_unique[OF ex that(1,3,2)] that(4) by blast
  have c: "h \<notin> set (tasks s)" if "i < length (workers s)" "holding (workers s ! i) = Some h" for i h
    using holder_not_queued[OF ex that] .
  from q have d: "distinct (tasks s)" by (simp add: queue_ok_def)
  from a b c d show ?thesis by blast
qed

theorem task_received_at_most_once_witness:
  "received
     [Submit (\<lambda>i. Inr (i * i)) 5, Submit (\<lambda>i. Inr (i * i)) (6 :: nat), Work 0, Work 1, Work 1, Work 0]
     (ThreadPool_ctor 2 :: nat ThreadPool) = [(0, 0), (1, 1)]
   \<and> distinct (map snd (received
     [Submit (\<lambda>i. Inr (i * i)) 5, Submit (\<lambda>i. Inr (i * i)) (6 :: nat), Work 0, Work 1, Work 1, Work 0]
     (ThreadPool_ctor 2 :: nat ThreadPool)))"
proof -
  let ?f = "\<lambda>i :: nat. (Inr (i * i) :: nat outcome)"
  let ?evs = "[Submit ?f 5, Submit ?f 6, Work 0, Work 1, Work 1, Work 0]"
  let ?p = "ThreadPool_ctor 2 :: nat ThreadPool"
  have "\<exists>s. run ?evs ?p = Some s" by (simp add: exec_defs numeral_2_eq_2)
  then obtain s where r: "run ?evs ?p = Some s" by blast
  have e: "received ?evs ?p = [(0, 0), (1, 1)]" by (simp add: exec_defs numeral_2_eq_2)
  from task_received_at_most_once[OF r] e show ?thesis by simp
qed

section \<open>Results, errors and cancellation\<close>




text \<open>
  Claim C3. When the body of the task a worker is about to call throws \<open>e\<close>, the two
  next steps of that worker store \<open>e\<close> in the task's own future and bring the worker back
  to waiting. No other shared state changes, the queue, the stop flag and the other workers
  are as before, and nothing is written to \<^verbatim>\<open>std::cerr\<close>: the handlers of lines 84-88
  are not reached, since the packaged task keeps the exception. A task submitted afterwards
  is completed by the same worker with the result of its function.
\<close>

theorem task_error_is_isolated:
  assumes reach: "run evs0 (ThreadPool_ctor n) = Some s"
    and i: "i < length (workers s)" and ex: "workers s ! i = Executing h"
    and thr: "callable (heap s ! h) () = Inl e"
  shows "\<exists>s1 s2. step (Work i :: ('a, 'r) event) s = Some s1
      \<and> step (Work i :: ('a, 'r) event) s1 = Some s2
      \<and> future_get h s = None
      \<and> future_get h s1 = Some (Inl e) \<and> future_get h s2 = Some (Inl e)
      \<and> length (heap s2) = length (heap s)
      \<and> (\<forall>k. k \<noteq> h \<longrightarrow> heap s2 ! k = heap s ! k)
      \<and> cerr s = [] \<and> cerr s1 = [] \<and> cerr s2 = []
      \<and> workers s1 = (workers s)[i := Completed h]
      \<and> workers s2 = (workers s)[i := Waiting]
      \<and> tasks s2 = tasks s \<and> stopping s2 = stopping s \<and> joining s2 = joining s
      \<and> (\<forall>(g :: 'a \<Rightarrow> 'r outcome) b. \<exists>s3.
            run (Submit g b # replicate (3 * Suc (length (tasks s))) (Work i)) s2 = Some s3
            \<and> future_get (length (heap s)) s3 = Some (g b)
            \<and> future_get h s3 = Some (Inl e)
            \<and> workers s3 ! i = Waiting \<and> cerr s3 = [])"
proof -
  have wf: "wf s" using wf_run[OF wf_ctor reach] .
  then have wk: "workers_ok s" and ce: "cerr s = []" by (simp_all add: wf_def)
  from worker_at[OF wk i] ex have h: "h < length (heap s)" "shared (heap s ! h) = Pending"
    by simp_all
  let ?hp = "(heap s)[h := (heap s ! h)\<lparr>shared := Ready (Inl e)\<rparr>]"
  let ?s1 = "s\<lparr>heap := ?hp, workers := (workers s)[i := Completed h]\<rparr>"
  let ?s2 = "?s1\<lparr>activeWorkers := activeWorkers s - 1, heap := ?hp,
      workers := (workers s)[i := Waiting]\<rparr>"
  have st1: "step (Work i :: ('a, 'r) event) s = Some ?s1"
    using i ex h thr by (simp add: workerLoop_def run_task_pending)
  have ab: "abandon h ?hp = ?hp" using h by (simp add: abandon_def)
  have st2: "step (Work i :: ('a, 'r) event) ?s1 = Some ?s2"
    using i ab by (simp add: workerLoop_def)
  have wf2: "wf ?s2" using wf_step[OF wf_step[OF wf st1] st2] .
  have facts: "future_get h s = None" "future_get h ?s1 = Some (Inl e)"
    "future_get h ?s2 = Some (Inl e)" "length (heap ?s2) = length (heap s)"
    "\<forall>k. k \<noteq> h \<longrightarrow> heap ?s2 ! k = heap s ! k"
    "cerr ?s1 = []" "cerr ?s2 = []"
    "workers ?s1 = (workers s)[i := Completed h]" "workers ?s2 = (workers s)[i := Waiting]"
    "tasks ?s2 = tasks s" "stopping ?s2 = stopping s" "joining ?s2 = joining s"
    using h ce by (simp_all add: future_get_def)
  have later: "\<exists>s3. run (Submit g b # replicate (3 * Suc (length (tasks s))) (Work i)) ?s2 = Some s3
            \<and> future_get (length (heap s)) s3 = Some (g b)
            \<and> future_get h s3 = Some (Inl e)
            \<and> workers s3 ! i = Waiting \<and> cerr s3 = []"
    for g :: "'a \<Rightarrow> 'r outcome" and b
  proof -
    let ?s3 = "snd (submit g b ?s2)"
    have s3: "?s3 = ?s2\<lparr>heap := ?hp @ [\<lparr>callable = (\<lambda>_. g b), shared = Pending\<rparr>],
         tasks := tasks s @ [length (heap s)]\<rparr>"
      by (simp add: submit_def Let_def)
    have wf3: "wf ?s3" using wf_submit[OF wf2] .
    have i3: "i < length (workers ?s3)" "workers ?s3 ! i = Waiting"
      using i unfolding s3 by simp_all
    have len: "length (tasks ?s3) = Suc (length (tasks s))" unfolding s3 by simp
    from queue_by_worker[OF wf3 i3, where 'a = 'a]
    obtain s4 where r: "run (replicate (3 * length (tasks ?s3)) (Work i :: ('a, 'r) event)) ?s3 = Some s4"
      and s4: "workers s4 = workers ?s3" "cerr s4 = cerr ?s3"
        "\<forall>k \<in> set (tasks ?s3). shared (heap s4 ! k) = Ready (callable (heap ?s3 ! k) ())"
      by blast
    have new: "shared (heap s4 ! length (heap s)) = Ready (g b)"
      using s4(3) unfolding s3 by (simp add: nth_append)
    have "follows_or_breaks ?s3 s4" using follows_or_breaks_run[OF r] .
    moreover have "h < length (heap ?s3)" "shared (heap ?s3 ! h) = Ready (Inl e)"
      using h unfolding s3 by (simp_all add: nth_append)
    ultimately have old: "shared (heap s4 ! h) = Ready (Inl e)"
      by (auto simp: follows_or_breaks_def)
    have "run (Submit g b # replicate (3 * Suc (length (tasks s))) (Work i)) ?s2 = Some s4"
      using r len by simp
    moreover have "workers s4 ! i = Waiting" "cerr s4 = []"
      using s4(1,2) i3 ce unfolding s3 by simp_all
    ultimately show ?thesis using new old by (auto simp: future_get_def)
  qed
  from st1 st2 facts ce later show ?thesis by blast
qed

theorem task_error_is_isolated_witness:
  "\<exists>s1 s2. step (Work 0 :: (nat, nat) event)
        \<lparr>workers = [Executing 0], tasks = [], stopping = False, activeWorkers = 1,
         heap = [\<lparr>callable = \<lambda>_. Inl (std_exception ''boom''), shared = Pending\<rparr>],
         cerr = [], joining = None\<rparr> = Some s1
     \<and> step (Work 0 :: (nat, nat) event) s1 = Some s2
     \<and> future_get 0 s2 = Some (Inl (std_exception ''boom''))
     \<and> workers s2 = [Waiting] \<and> cerr s2 = []
     \<and> (\<exists>s3. run [Submit (\<lambda>x. Inr (x * x)) 7, Work 0, Work 0, Work 0] s2 = Some s3
          \<and> future_get 1 s3 = Some (Inr 49)
          \<and> future_get 0 s3 = Some (Inl (std_exception ''boom'')))"
proof -
  let ?bad = "\<lambda>x :: nat. (Inl (std_exception ''boom'') :: nat outcome)"
  let ?sq = "\<lambda>x :: nat. (Inr (x * x) :: nat outcome)"
  let ?p = "ThreadPool_ctor 1 :: nat ThreadPool"
  let ?s = "\<lparr>workers = [Executing 0], tasks = [], stopping = False, activeWorkers = 1,
         heap = [\<lparr>callable = \<lambda>_. Inl (std_exception ''boom''), shared = Pending\<rparr>],
         cerr = [], joining = None\<rparr> :: nat ThreadPool"
  have r0: "run [Submit ?bad 3, Work 0] ?p = Some ?s" by (simp add: exec_defs)
  have i: "0 < length (workers ?s)" "workers ?s ! 0 = Executing 0" by simp_all
  have thr: "callable (heap ?s ! 0) () = Inl (std_exception ''boom'')" by simp
  from task_error_is_isolated[OF r0 i thr]
  obtain s1 s2 where st: "step (Work 0 :: (nat, nat) event) ?s = Some s1"
      "step (Work 0 :: (nat, nat) event) s1 = Some s2"
    and f: "future_get 0 s2 = Some (Inl (std_exception ''boom''))"
      "workers s2 = [Executing 0][0 := Waiting]" "cerr s2 = []"
    and later: "\<forall>(g :: nat \<Rightarrow> nat outcome) b. \<exists>s3.
            run (Submit g b # replicate (3 * Suc (length (tasks ?s))) (Work 0)) s2 = Some s3
            \<and> future_get (length (heap ?s)) s3 = Some (g b)
            \<and> future_get 0 s3 = Some (Inl (std_exception ''boom''))
            \<and> workers s3 ! 0 = Waiting \<and> cerr s3 = []"
    by auto
  from later[rule_format, of ?sq 7]
  obtain s3 where "run (Submit ?sq 7 # replicate (3 * Suc (length (tasks ?s))) (Work 0)) s2 = Some s3"
    "future_get (length (heap ?s)) s3 = Some (?sq 7)"
    "future_get 0 s3 = Some (Inl (std_exception ''boom''))" by blast
  then have "run [Submit ?sq 7, Work 0, Work 0, Work 0] s2 = Some s3"
    "future_get 1 s3 = Some (Inr 49)" "future_get 0 s3 = Some (Inl (std_exception ''boom''))"
    by (simp_all add: numeral_3_eq_3)
  with st f show ?thesis by auto
qed

text \<open>
  Claim C4. A task that is in the queue when \<^verbatim>\<open>shutdown(false)\<close> clears it is not handed
  to any worker afterwards, and its future, pending before, is ready from the clearing on
  and for ever with the exception \<^verbatim>\<open>future_error(broken_promise)\<close>: reading it does not
  block. The clearing destroys the closure, which owns the packaged task.
\<close>

theorem discarded_task_gets_broken_promise:
  assumes reach: "run evs0 (ThreadPool_ctor n) = Some s"
    and queued: "h \<in> set (tasks s)"
    and later: "run (Shutdown False # evs) s = Some s'"
  shows "future_get h s = None
    \<and> tasks (shutdown_enter False s) = []
    \<and> future_get h (shutdown_enter False s) = Some (Inl (future_error broken_promise))
    \<and> future_get h s' = Some (Inl (future_error broken_promise))
    \<and> h \<notin> snd ` set (received (Shutdown False # evs) s)"
proof -
  let ?s1 = "shutdown_enter False s"
  have wf: "wf s" using wf_run[OF wf_ctor reach] .
  from later have j: "joining s = None" and r1: "run evs ?s1 = Some s'"
    by (auto split: if_splits)
  from wf queued have h: "h < length (heap s)" "shared (heap s ! h) = Pending"
    by (auto simp: wf_def queue_ok_def)
  have a: "future_get h s = None" using h by (simp add: future_get_def)
  have b: "tasks ?s1 = []" by (simp add: shutdown_enter_def)
  have sh: "shared (heap ?s1 ! h) = Ready (Inl (future_error broken_promise))"
    using h queued by (simp add: shutdown_enter_def shared_fold_abandon)
  then have c: "future_get h ?s1 = Some (Inl (future_error broken_promise))"
    by (simp add: future_get_def)
  have hl: "h < length (heap ?s1)" using h by (simp add: shutdown_enter_def)
  from follows_or_breaks_run[OF r1] hl sh
  have "shared (heap s' ! h) = Ready (Inl (future_error broken_promise))"
    by (auto simp: follows_or_breaks_def)
  then have d: "future_get h s' = Some (Inl (future_error broken_promise))"
    by (simp add: future_get_def)
  have wf1: "wf ?s1" using wf j by (rule wf_shutdown_enter)
  from received_once[OF wf1 r1] b hl
  have "h \<notin> snd ` set (received evs ?s1)" by auto
  then have e: "h \<notin> snd ` set (received (Shutdown False # evs) s)" using j by simp
  from a b c d e show ?thesis by blast
qed

theorem discarded_task_gets_broken_promise_witness:
  "future_get 1
     (shutdown_enter False
       \<lparr>workers = [Executing 0], tasks = [1], stopping = False, activeWorkers = 1,
        heap = [\<lparr>callable = \<lambda>_. Inr (25 :: nat), shared = Pending\<rparr>,
                \<lparr>callable = \<lambda>_. Inr 36, shared = Pending\<rparr>],
        cerr = [], joining = None\<rparr>)
   = Some (Inl (future_error broken_promise))
   \<and> run [Submit (\<lambda>i. Inr (i * i)) 5, Submit (\<lambda>i. Inr (i * i)) (6 :: nat), Work 0,
           Shutdown False, Work 0, Work 0, Work 0, Join, Join]
       (ThreadPool_ctor 1 :: nat ThreadPool)
     = Some \<lparr>workers = [], tasks = [], stopping = True, activeWorkers = 0,
        heap = [\<lparr>callable = \<lambda>_. Inr 25, shared = Ready (Inr 25)\<rparr>,
                \<lparr>callable = \<lambda>_. Inr 36, shared = Ready (Inl (future_error broken_promise))\<rparr>],
        cerr = [], joining = None\<rparr>"
proof -
  let ?f = "\<lambda>i :: nat. (Inr (i * i) :: nat outcome)"
  let ?p = "ThreadPool_ctor 1 :: nat ThreadPool"
  let ?s = "\<lparr>workers = [Executing 0], tasks = [1], stopping = False, activeWorkers = 1,
        heap = [\<lparr>callable = \<lambda>_. Inr (25 :: nat), shared = Pending\<rparr>,
                \<lparr>callable = \<lambda>_. Inr 36, shared = Pending\<rparr>],
        cerr = [], joining = None\<rparr>"
  let ?s' = "\<lparr>workers = [], tasks = [], stopping = True, activeWorkers = 0,
        heap = [\<lparr>callable = \<lambda>_. Inr (25 :: nat), shared = Ready (Inr 25)\<rparr>,
                \<lparr>callable = \<lambda>_. Inr 36, shared = Ready (Inl (future_error broken_promise))\<rparr>],
        cerr = [], joining = None\<rparr>"
  have r0: "run [Submit ?f 5, Submit ?f 6, Work 0] ?p = Some ?s" by (simp add: exec_defs)
  have q: "1 \<in> set (tasks ?s)" by simp
  have r1: "run [Shutdown False, Work 0, Work 0, Work 0, Join, Join :: (nat, nat) event] ?s = Some ?s'"
    by (simp add: exec_defs)
  have r: "run [Submit ?f 5, Submit ?f 6, Work 0,
           Shutdown False, Work 0, Work 0, Work 0, Join, Join] ?p = Some ?s'"
    using r0 r1 run_append[of "[Submit ?f 5, Submit ?f 6, Work 0]"
      "[Shutdown False, Work 0, Work 0, Work 0, Join, Join]" ?p] by simp
  from discarded_task_gets_broken_promise[OF r0 q r1]
  have "future_get 1 (shutdown_enter False ?s) = Some (Inl (future_error broken_promise))"
    by blast
  with r show ?thesis by blast
qed

section \<open>Shutdown and destruction\<close>

text \<open>
  Claim C2, amended. When \<^verbatim>\<open>shutdown(true)\<close> is called on a pool in which at least one
  worker has not yet returned from its loop, and only workers and the join loop take steps
  until the call returns, then at the return the queue is empty, every worker has been
  joined once and the vector is cleared, every future handed out before the call is ready,
  every task that was pending at the call has been run and its future holds the outcome of
  its body, and nothing was written to \<^verbatim>\<open>std::cerr\<close>; if no immediate shutdown came
  before, this is every task submitted. Such a call can return.

  As the claim is stated, with a worker vector that is merely not empty, it fails: a worker
  started after an earlier shutdown returns from its loop at once, since the stop flag is
  never reset, and a later \<^verbatim>\<open>shutdown(true)\<close> joins it and returns with the tasks
  submitted in between still queued and their futures pending.
\<close>

theorem drain_shutdown_completes_all:
  assumes reach: "run (evs0 :: ('a, 'r) event list) (ThreadPool_ctor n) = Some s"
    and live: "\<exists>i < length (workers s). workers s ! i \<noteq> Exited"
    and call: "run (Shutdown True # evs) s = Some s'"
    and int: "list_all internal (evs :: ('a, 'r) event list)"
    and ret: "joining s' = None"
  shows "getQueuedTaskCount s' = 0 \<and> workers s' = []
    \<and> length (filter (\<lambda>e. e = Join) evs) = Suc (length (workers s))
    \<and> length (heap s') = length (heap s)
    \<and> (\<forall>h < length (heap s). future_get h s' \<noteq> None \<and>
          (future_get h s = None \<longrightarrow> future_get h s' = Some (callable (heap s ! h) ())))
    \<and> (Shutdown False \<notin> set evs0 \<longrightarrow>
          (\<forall>h < length (heap s). future_get h s' = Some (callable (heap s ! h) ())))
    \<and> cerr s' = []
    \<and> (\<exists>(es :: ('a, 'r) event list) t. list_all internal es \<and> run (Shutdown True # es) s = Some t
          \<and> joining t = None)"
proof -
  have wf: "wf s" using wf_run[OF wf_ctor reach] .
  from call have j: "joining s = None" by (auto split: if_splits)
  note d = drain_shutdown_facts[OF wf live call int ret]
  have a: "getQueuedTaskCount s' = 0" using d(1) by (simp add: getQueuedTaskCount_def)
  have e: "Shutdown False \<notin> set evs0 \<longrightarrow>
          (\<forall>h < length (heap s). future_get h s' = Some (callable (heap s ! h) ()))"
    using d(6) undiscarded_run[OF wf_ctor undiscarded_ctor reach] by blast
  from a d(2,3,4,5,7) e drain_shutdown_can_return[OF wf j, where 'a = 'a] show ?thesis
    by blast
qed

theorem drain_shutdown_completes_all_witness:
  "run [Submit (\<lambda>x. Inr (x * x)) 5, Submit (\<lambda>x. Inr (x * x)) (6 :: nat), Work 0,
        Shutdown True, Work 1, Work 0, Work 1, Work 0, Work 1, Work 0, Work 1, Join, Join, Join]
     (ThreadPool_ctor 2 :: nat ThreadPool)
   = Some \<lparr>workers = [], tasks = [], stopping = True, activeWorkers = 0,
        heap = [\<lparr>callable = \<lambda>_. Inr 25, shared = Ready (Inr 25)\<rparr>,
                \<lparr>callable = \<lambda>_. Inr 36, shared = Ready (Inr 36)\<rparr>], cerr = [], joining = None\<rparr>
   \<and> getQueuedTaskCount
        \<lparr>workers = [], tasks = [], stopping = True, activeWorkers = 0,
         heap = [\<lparr>callable = \<lambda>_. Inr (25 :: nat), shared = Ready (Inr 25)\<rparr>,
                 \<lparr>callable = \<lambda>_. Inr 36, shared = Ready (Inr 36)\<rparr>], cerr = [], joining = None\<rparr> = 0"
proof -
  let ?sq = "\<lambda>x :: nat. (Inr (x * x) :: nat outcome)"
  let ?p = "ThreadPool_ctor 2 :: nat ThreadPool"
  let ?pre = "[Submit ?sq 5, Submit ?sq 6, Work 0]"
  let ?evs = "[Work 1, Work 0, Work 1, Work 0, Work 1, Work 0, Work 1, Join, Join, Join] :: (nat, nat) event list"
  let ?s = "\<lparr>workers = [Executing 0, Waiting], tasks = [1], stopping = False, activeWorkers = 1,
        heap = [\<lparr>callable = \<lambda>_. Inr (25 :: nat), shared = Pending\<rparr>,
                \<lparr>callable = \<lambda>_. Inr 36, shared = Pending\<rparr>], cerr = [], joining = None\<rparr>"
  let ?s' = "\<lparr>workers = [], tasks = [], stopping = True, activeWorkers = 0,
        heap = [\<lparr>callable = \<lambda>_. Inr (25 :: nat), shared = Ready (Inr 25)\<rparr>,
                \<lparr>callable = \<lambda>_. Inr 36, shared = Ready (Inr 36)\<rparr>], cerr = [], joining = None\<rparr>"
  have r0: "run ?pre ?p = Some ?s" by (simp add: exec_defs numeral_2_eq_2)
  have live: "\<exists>i < length (workers ?s). workers ?s ! i \<noteq> Exited"
    by (intro exI[of _ 0]) simp
  have call: "run (Shutdown True # ?evs) ?s = Some ?s'" by (simp add: exec_defs)
  have int: "list_all internal ?evs" by simp
  have ret: "joining ?s' = None" by simp
  have all: "run (?pre @ Shutdown True # ?evs) ?p = Some ?s'"
    using r0 call by (simp only: run_append option.case)
  from drain_shutdown_completes_all[OF r0 live call int ret]
  have "getQueuedTaskCount ?s' = 0" by blast
  with all show ?thesis by simp
qed

theorem drain_shutdown_with_exited_workers_counterexample:
  "run [Shutdown True, Work 0, Join, Join, IncreaseSize 1, Work 0, Submit (\<lambda>x. Inr (x * x)) (7 :: nat)]
     (ThreadPool_ctor 1 :: nat ThreadPool)
   = Some \<lparr>workers = [Exited], tasks = [0], stopping = True, activeWorkers = 0,
        heap = [\<lparr>callable = \<lambda>_. Inr 49, shared = Pending\<rparr>], cerr = [], joining = None\<rparr>
   \<and> run [Shutdown True, Join, Join :: (nat, nat) event]
       \<lparr>workers = [Exited], tasks = [0], stopping = True, activeWorkers = 0,
        heap = [\<lparr>callable = \<lambda>_. Inr (49 :: nat), shared = Pending\<rparr>], cerr = [], joining = None\<rparr>
   = Some \<lparr>workers = [], tasks = [0], stopping = True, activeWorkers = 0,
        heap = [\<lparr>callable = \<lambda>_. Inr 49, shared = Pending\<rparr>], cerr = [], joining = None\<rparr>
   \<and> getQueuedTaskCount
       \<lparr>workers = [], tasks = [0], stopping = True, activeWorkers = 0,
        heap = [\<lparr>callable = \<lambda>_. Inr (49 :: nat), shared = Pending\<rparr>], cerr = [], joining = None\<rparr> = 1
   \<and> future_get 0
       \<lparr>workers = [], tasks = [0], stopping = True, activeWorkers = 0,
        heap = [\<lparr>callable = \<lambda>_. Inr (49 :: nat), shared = Pending\<rparr>], cerr = [], joining = None\<rparr> = None"
  by (simp add: exec_defs)

text \<open>
  Claim C10. The destructor of a pool on which \<^verbatim>\<open>shutdown\<close> was never called is a
  drain shutdown: when it returns, every task submitted has been run and its future holds
  the outcome of its body, every worker has been joined and the vector is empty, and the
  destruction of the queue that follows finds it empty, so nothing is discarded. Such a
  destructor can return.
\<close>

theorem destructor_drains_never_shut_down_pool:
  assumes reach: "run (evs0 :: ('a, 'r) event list) (ThreadPool_ctor n) = Some s"
    and never: "\<forall>b. Shutdown b \<notin> set evs0"
  shows "(\<forall>(evs :: ('a, 'r) event list) s'. ThreadPool_dtor evs s = Some s' \<longrightarrow>
        run (Shutdown True # evs) s = Some s'
        \<and> tasks s' = [] \<and> workers s' = []
        \<and> length (filter (\<lambda>e. e = Join) evs) = Suc (length (workers s))
        \<and> length (heap s') = length (heap s)
        \<and> (\<forall>h < length (heap s). future_get h s' = Some (callable (heap s ! h) ()))
        \<and> cerr s' = [])
    \<and> (\<exists>(evs :: ('a, 'r) event list) s'. ThreadPool_dtor evs s = Some s')"
proof -
  from never_shut_down_ctor[OF reach never]
  have j: "joining s = None" and live: "\<exists>i < length (workers s). workers s ! i \<noteq> Exited"
    by simp_all
  from never have nd: "Shutdown False \<notin> set evs0" by simp
  have wf: "wf s" using wf_run[OF wf_ctor reach] .
  have u: "undiscarded s" using undiscarded_run[OF wf_ctor undiscarded_ctor reach nd] .
  have a: "run (Shutdown True # evs) s = Some s'
        \<and> tasks s' = [] \<and> workers s' = []
        \<and> length (filter (\<lambda>e. e = Join) evs) = Suc (length (workers s))
        \<and> length (heap s') = length (heap s)
        \<and> (\<forall>h < length (heap s). future_get h s' = Some (callable (heap s ! h) ()))
        \<and> cerr s' = []"
    if dt: "ThreadPool_dtor evs s = Some s'" for evs :: "('a, 'r) event list" and s'
  proof -
    from dt obtain t where int: "list_all internal evs" and r: "run (Shutdown True # evs) s = Some t"
      and ret: "joining t = None" and s': "s' = destroy_members t"
      unfolding ThreadPool_dtor_def by (auto split: if_splits option.splits)
    note d = drain_shutdown_facts[OF wf live r int ret]
    from d(1) have "destroy_members t = t" by (simp add: destroy_members_def)
    with s' have "s' = t" by simp
    with d(1,2,3,4,7) d(6)[OF u] r show ?thesis by simp
  qed
  from drain_shutdown_can_return[OF wf j, where 'a = 'a]
  obtain es :: "('a, 'r) event list" and t where "list_all internal es"
    "run (Shutdown True # es) s = Some t" "joining t = None" by blast
  then have "ThreadPool_dtor es s = Some (destroy_members t)"
    by (simp add: ThreadPool_dtor_def)
  then have b: "\<exists>(evs :: ('a, 'r) event list) s'. ThreadPool_dtor evs s = Some s'" by blast
  from a b show ?thesis by blast
qed

theorem destructor_drains_never_shut_down_pool_witness:
  "ThreadPool_dtor [Work 0, Work 0, Work 0, Work 0, Join, Join :: (nat, nat) event]
     \<lparr>workers = [Waiting], tasks = [0], stopping = False, activeWorkers = 0,
      heap = [\<lparr>callable = \<lambda>_. Inr (25 :: nat), shared = Pending\<rparr>], cerr = [], joining = None\<rparr>
   = Some \<lparr>workers = [], tasks = [], stopping = True, activeWorkers = 0,
      heap = [\<lparr>callable = \<lambda>_. Inr 25, shared = Ready (Inr 25)\<rparr>], cerr = [], joining = None\<rparr>
   \<and> future_get 0
       \<lparr>workers = [], tasks = [], stopping = True, activeWorkers = 0,
        heap = [\<lparr>callable = \<lambda>_. Inr (25 :: nat), shared = Ready (Inr 25)\<rparr>], cerr = [],
        joining = None\<rparr> = Some (Inr 25)"
proof -
  let ?sq = "\<lambda>x :: nat. (Inr (x * x) :: nat outcome)"
  let ?p = "ThreadPool_ctor 1 :: nat ThreadPool"
  let ?evs = "[Work 0, Work 0, Work 0, Work 0, Join, Join] :: (nat, nat) event list"
  let ?s = "\<lparr>workers = [Waiting], tasks = [0], stopping = False, activeWorkers = 0,
      heap = [\<lparr>callable = \<lambda>_. Inr (25 :: nat), shared = Pending\<rparr>], cerr = [], joining = None\<rparr>"
  let ?s' = "\<lparr>workers = [], tasks = [], stopping = True, activeWorkers = 0,
      heap = [\<lparr>callable = \<lambda>_. Inr (25 :: nat), shared = Ready (Inr 25)\<rparr>], cerr = [],
      joining = None\<rparr>"
  have r0: "run [Submit ?sq 5] ?p = Some ?s" by (simp add: exec_defs)
  have never: "\<forall>b. Shutdown b \<notin> set [Submit ?sq 5]" by simp
  have dt: "ThreadPool_dtor ?evs ?s = Some ?s'"
    by (simp add: ThreadPool_dtor_def destroy_members_def exec_defs)
  from destructor_drains_never_shut_down_pool[OF r0 never] dt
  have "\<forall>h < length (heap ?s). future_get h ?s' = Some (callable (heap ?s ! h) ())"
    by blast
  then have "future_get 0 ?s' = Some (Inr 25)" by simp
  with dt show ?thesis by simp
qed

end
